theory Spec2Isabelle
  imports Main "HOL-Library.Multiset"
begin

section \<open>Port-operation events: timeline merging and laytime allocation\<close>

text \<open>
  The development follows the \<open>enrichedData\<close> computation of the application page
  (the revision that holds \<open>formatMinutesToDuration\<close>, the timeline merge and the
  laytime calculation) and the helper \<open>formatMinutesToDuration\<close> above it.

  Instants are what \<open>parseISO(s).getTime()\<close> yields on a valid date: milliseconds
  since the epoch, an integer. The time stamp of an input event is a string; what the
  code can tell about it is whether it is absent or empty (falsy in the source's filter),
  present but not a time stamp (\<open>parseISO\<close> returns an invalid date), or present and
  parsing to an instant. The older merge that \<open>analytics-dashboard.tsx\<close> keeps is modelled
  next to the one of the page.
\<close>

subsection \<open>Numbers and strings of the host language\<close>

type_synonym instant = int

text \<open>The exceptions that the pipeline can raise: a TypeError from reading a property
  of \<open>undefined\<close> (an index into an empty array) and from \<open>reduce\<close> on an empty array
  without initial value, and the RangeError that \<open>format\<close> of date-fns raises on an
  invalid date.\<close>

datatype error = TypeError | RangeError

text \<open>Decimal rendering of a whole number in a template literal (below \<open>10^21\<close>, where
  the host language switches to exponent notation).\<close>

definition digit :: "nat \<Rightarrow> char" where
  "digit d = ''0123456789'' ! d"

function toString_nat :: "nat \<Rightarrow> string" where
  "toString_nat n =
     (if n < 10 then [digit n] else toString_nat (n div 10) @ [digit (n mod 10)])"
  by pat_completeness auto
termination
  by (relation "measure id") auto

declare toString_nat.simps [simp del]

definition toString :: "int \<Rightarrow> string" where
  "toString i = (if i < 0 then CHR ''-'' # toString_nat (nat (- i)) else toString_nat (nat i))"

text \<open>\<open>String.prototype.trim\<close>: white space is removed at both ends.\<close>

definition isWhite :: "char \<Rightarrow> bool" where
  "isWhite c = (c = CHR '' '' \<or> c = CHR 0x09 \<or> c = CHR 0x0A \<or> c = CHR 0x0B
                \<or> c = CHR 0x0C \<or> c = CHR 0x0D)"

definition trim :: "string \<Rightarrow> string" where
  "trim s = rev (dropWhile isWhite (rev (dropWhile isWhite s)))"

text \<open>The remainder operator \<open>%\<close> takes the sign of the dividend.\<close>

definition js_rem :: "int \<Rightarrow> int \<Rightarrow> int" where
  "js_rem a b = (if 0 \<le> a then a mod \<bar>b\<bar> else - ((- a) mod \<bar>b\<bar>))"

text \<open>Division of a difference of instants, truncated towards zero, as date-fns does in
  \<open>differenceInMinutes\<close> and \<open>differenceInHours\<close>.\<close>

definition trunc_div :: "int \<Rightarrow> int \<Rightarrow> int" where
  "trunc_div a b = (if 0 \<le> a then a div b else - ((- a) div b))"

definition differenceInMinutes :: "instant \<Rightarrow> instant \<Rightarrow> int" where
  "differenceInMinutes l r = trunc_div (l - r) 60000"

definition differenceInHours :: "instant \<Rightarrow> instant \<Rightarrow> int" where
  "differenceInHours l r = trunc_div (l - r) 3600000"

text \<open>The latest and the earliest of a non-empty array of dates \<open>d # ds\<close> (on the empty
  array date-fns returns an invalid date).\<close>

definition max_dates :: "instant \<Rightarrow> instant list \<Rightarrow> instant" where
  "max_dates d ds = fold max ds d"

definition min_dates :: "instant \<Rightarrow> instant list \<Rightarrow> instant" where
  "min_dates d ds = fold min ds d"

subsection \<open>The duration formatter\<close>

text \<open>\<open>formatMinutesToDuration\<close>, on whole minutes: every caller passes a difference
  in minutes or a sum of such, on which \<open>Math.floor(a / b)\<close> is \<open>a div b\<close> and
  \<open>Math.round\<close> is the identity.\<close>

definition formatMinutesToDuration :: "int \<Rightarrow> string" where
  "formatMinutesToDuration totalMinutes =
     (if totalMinutes \<le> 0 then ''0m''
      else
        let days = totalMinutes div 1440;
            remainingMinutes = js_rem totalMinutes 1440;
            hours = remainingMinutes div 60;
            minutes = js_rem remainingMinutes 60;
            result = '''';
            result = (if days > 0 then result @ toString days @ ''d '' else result);
            result = (if hours > 0 then result @ toString hours @ ''h '' else result);
            result = (if minutes > 0 \<or> result = '''' then result @ toString minutes @ ''m''
                      else result)
        in trim result)"

subsection \<open>Events\<close>

text \<open>The string of a time stamp field, as far as the code looks at it.\<close>

datatype stamp = Missing | Unparseable | At instant

text \<open>Truthiness of the string, and \<open>parseISO\<close>: \<open>None\<close> is the invalid date.\<close>

definition truthy :: "stamp \<Rightarrow> bool" where
  "truthy s = (case s of Missing \<Rightarrow> False | Unparseable \<Rightarrow> True | At t \<Rightarrow> True)"

definition parseISO :: "stamp \<Rightarrow> instant option" where
  "parseISO s = (case s of Missing \<Rightarrow> None | Unparseable \<Rightarrow> None | At t \<Rightarrow> Some t)"

text \<open>An extracted event; \<open>'t\<close> is \<open>stamp\<close> on input and \<open>instant\<close> for an event whose
  two time stamps have been parsed to valid dates.\<close>

record 't Event =
  event :: string
  category :: string
  startTime :: 't
  endTime :: 't
  duration :: string
  status :: string
  remark :: "string option"

text \<open>\<open>events.filter(e => e.startTime && e.endTime)\<close>\<close>

definition validEvents :: "stamp Event list \<Rightarrow> stamp Event list" where
  "validEvents events = filter (\<lambda>e. truthy (startTime e) \<and> truthy (endTime e)) events"

text \<open>The dates of an event: \<open>parseISO(e.startTime!)\<close> and \<open>parseISO(e.endTime!)\<close>, when
  both are valid; \<open>widen\<close> goes back to the strings.

  The source parses a time stamp at each place that uses it. The model parses the kept
  events once, before the sort: \<open>parsedEvents\<close> is \<open>None\<close> when a kept event has a time
  stamp that is an invalid date. Nothing before the loop raises on such an event:
  \<open>parseISO\<close> returns the invalid date, and the comparator of the sort yields NaN, which
  leaves the order to the implementation. The loop then takes the kept events one by
  one, in whatever order, and the first iteration that takes an event with an invalid
  date raises RangeError, because each branch of the loop body calls \<open>format\<close> before it
  completes:
  \<^item> a new block (no current block, or no overlap) formats \<open>eventStart\<close> and \<open>eventEnd\<close>;
  \<^item> the comparison \<open>eventStart < blockEndDate\<close> is false on an invalid \<open>eventStart\<close>,
    which leads to the new block;
  \<^item> an append formats \<open>max([blockEndDate, eventEnd])\<close>, which is the invalid date
    when \<open>eventEnd\<close> is.
  So the computation ends with RangeError exactly when \<open>parsedEvents\<close> is \<open>None\<close>, and
  otherwise every date below is valid.\<close>

definition parsed :: "stamp Event \<Rightarrow> instant Event option" where
  "parsed e =
     (case (parseISO (startTime e), parseISO (endTime e)) of
        (Some s, Some t) \<Rightarrow>
          Some \<lparr>event = event e, category = category e, startTime = s, endTime = t,
                duration = duration e, status = status e, remark = remark e\<rparr>
      | _ \<Rightarrow> None)"

definition widen :: "instant Event \<Rightarrow> stamp Event" where
  "widen e = \<lparr>event = event e, category = category e, startTime = At (startTime e),
              endTime = At (endTime e), duration = duration e, status = status e,
              remark = remark e\<rparr>"

fun parsedEvents :: "stamp Event list \<Rightarrow> instant Event list option" where
  "parsedEvents [] = Some []"
| "parsedEvents (e # es) =
     (case parsed e of
        None \<Rightarrow> None
      | Some v \<Rightarrow> (case parsedEvents es of None \<Rightarrow> None | Some vs \<Rightarrow> Some (v # vs)))"

text \<open>\<open>[...validEvents].sort((a, b) => start(a) - start(b))\<close>; the sort is stable.\<close>

definition sortedEvents :: "instant Event list \<Rightarrow> instant Event list" where
  "sortedEvents vs = sort_key startTime vs"

subsection \<open>The timeline merger\<close>

text \<open>A timeline block. The fields \<open>blockStartTime\<close> and \<open>blockEndTime\<close> hold the
  instants that the source renders with \<open>format(_, 'MMM d, HH:mm')\<close> and
  \<open>format(_, 'HH:mm')\<close> into its \<open>startTime\<close> and \<open>endTime\<close>; \<open>blockCategory\<close> and
  \<open>blockDuration\<close> are its \<open>category\<close> and \<open>duration\<close>.\<close>

record TimelineBlock =
  name :: string
  blockCategory :: string
  blockStartTime :: instant
  blockEndTime :: instant
  time :: "int \<times> int"
  blockDuration :: string
  subEvents :: "instant Event list"

definition newBlock :: "instant \<Rightarrow> instant Event \<Rightarrow> TimelineBlock" where
  "newBlock firstEventTime ev =
     \<lparr>name = event ev, blockCategory = category ev,
      blockStartTime = startTime ev, blockEndTime = endTime ev,
      time = (differenceInHours (startTime ev) firstEventTime,
              differenceInHours (endTime ev) firstEventTime),
      blockDuration = duration ev, subEvents = [ev]\<rparr>"

text \<open>One iteration of \<open>for (const event of sortedEvents)\<close>; the state is
  \<open>mergedBlocks\<close> and \<open>currentBlock\<close>. The maximum over an empty \<open>subEvents\<close> would be an
  invalid date, for which the comparison \<open>eventStart < blockEndDate\<close> is false.\<close>

definition loopBody ::
  "instant \<Rightarrow> instant Event \<Rightarrow> TimelineBlock list \<times> TimelineBlock option
     \<Rightarrow> TimelineBlock list \<times> TimelineBlock option" where
  "loopBody firstEventTime ev st =
     (let mergedBlocks = fst st; eventStart = startTime ev; eventEnd = endTime ev in
      case snd st of
        None \<Rightarrow> (mergedBlocks, Some (newBlock firstEventTime ev))
      | Some currentBlock \<Rightarrow>
          (case subEvents currentBlock of
             [] \<Rightarrow> (mergedBlocks @ [currentBlock], Some (newBlock firstEventTime ev))
           | s # ss \<Rightarrow>
               let blockEndDate = max_dates (endTime s) (map endTime ss) in
               if eventStart < blockEndDate then
                 let newEndDate = max_dates blockEndDate [eventEnd];
                     blockStartDate = min_dates (startTime s) (map startTime (ss @ [ev]))
                 in (mergedBlocks,
                     Some (currentBlock
                       \<lparr>subEvents := subEvents currentBlock @ [ev],
                        blockEndTime := newEndDate,
                        time := (differenceInHours blockStartDate firstEventTime,
                                 differenceInHours newEndDate firstEventTime)\<rparr>))
               else (mergedBlocks @ [currentBlock], Some (newBlock firstEventTime ev))))"

text \<open>The whole sweep, with the final \<open>if (currentBlock) mergedBlocks.push(currentBlock)\<close>.\<close>

definition mergedBlocks :: "instant \<Rightarrow> instant Event list \<Rightarrow> TimelineBlock list" where
  "mergedBlocks firstEventTime sortedEvs =
     (if length sortedEvs > 0 then
        (case fold (loopBody firstEventTime) sortedEvs ([], None) of
           (merged, None) \<Rightarrow> merged
         | (merged, Some currentBlock) \<Rightarrow> merged @ [currentBlock])
      else [])"

text \<open>The span \<open>[start, end]\<close> that the post-processing computes for a block:
  the earliest start and the latest end of its members.\<close>

definition blockSpan :: "TimelineBlock \<Rightarrow> (instant \<times> instant) option" where
  "blockSpan b =
     (case subEvents b of
        [] \<Rightarrow> None
      | s # ss \<Rightarrow> Some (min_dates (startTime s) (map startTime ss),
                        max_dates (endTime s) (map endTime ss)))"

text \<open>The callback of \<open>mergedBlocks.map\<close>. On a block without members
  \<open>block.subEvents[0].event\<close> raises a TypeError. The guard of the reducer on missing
  time stamps is never taken: every member has both.\<close>

definition longer :: "instant Event \<Rightarrow> instant Event \<Rightarrow> instant Event" where
  "longer longest current =
     (let longestDuration = differenceInMinutes (endTime longest) (startTime longest);
          currentDuration = differenceInMinutes (endTime current) (startTime current)
      in if currentDuration > longestDuration then current else longest)"

definition finishBlock :: "TimelineBlock \<Rightarrow> error + TimelineBlock" where
  "finishBlock block =
     (case subEvents block of
        [] \<Rightarrow> Inl TypeError
      | s # ss \<Rightarrow>
          let startDate = min_dates (startTime s) (map startTime ss);
              endDate = max_dates (endTime s) (map endTime ss);
              totalDurationMinutes = differenceInMinutes endDate startDate;
              name' = (if length (subEvents block) > 1
                       then toString_nat (length (subEvents block)) @ '' Overlapping Events''
                       else event s);
              mainCategory = category (foldl longer s ss)
          in Inr (block\<lparr>name := name', blockCategory := mainCategory,
                         blockDuration := formatMinutesToDuration totalDurationMinutes\<rparr>))"

fun mapE :: "('a \<Rightarrow> error + 'b) \<Rightarrow> 'a list \<Rightarrow> error + 'b list" where
  "mapE f [] = Inr []"
| "mapE f (x # xs) =
     (case f x of
        Inl e \<Rightarrow> Inl e
      | Inr y \<Rightarrow> (case mapE f xs of Inl e \<Rightarrow> Inl e | Inr ys \<Rightarrow> Inr (y # ys)))"

definition timelineBlocks :: "instant \<Rightarrow> instant Event list \<Rightarrow> error + TimelineBlock list" where
  "timelineBlocks firstEventTime sortedEvs = mapE finishBlock (mergedBlocks firstEventTime sortedEvs)"

subsection \<open>The laytime allocator\<close>

record LaytimeEvent =
  lt_event :: string
  lt_startTime :: instant
  lt_endTime :: instant
  lt_duration :: string
  isCounted :: bool
  reason :: string

record LaytimeCalculation =
  totalLaytime :: string
  allowedLaytime :: string
  timeSaved :: string
  demurrage :: string
  demurrageCost :: "string option"
  laytimeEvents :: "LaytimeEvent list"

definition classify :: "string \<Rightarrow> bool \<times> string" where
  "classify cat =
     (if cat = ''Cargo Operations'' then (True, ''Cargo operations count towards laytime.'')
      else if cat = ''Delays'' \<or> cat = ''Stoppages''
           then (False, ''Delays and stoppages generally do not count.'')
      else (False, ''Not counted towards laytime.''))"

text \<open>The callback of \<open>validEvents.map\<close>: the laytime event, and the new value of
  the running total \<open>totalLaytimeMinutes\<close>.\<close>

definition laytimeEvent :: "instant Event \<Rightarrow> int \<Rightarrow> LaytimeEvent \<times> int" where
  "laytimeEvent ev totalLaytimeMinutes =
     (let (counted, why) = classify (category ev);
          durationMinutes = differenceInMinutes (endTime ev) (startTime ev)
      in (\<lparr>lt_event = event ev, lt_startTime = startTime ev, lt_endTime = endTime ev,
            lt_duration = formatMinutesToDuration durationMinutes,
            isCounted = counted, reason = why\<rparr>,
          if counted then totalLaytimeMinutes + durationMinutes else totalLaytimeMinutes))"

fun laytimeLoop :: "instant Event list \<Rightarrow> int \<Rightarrow> LaytimeEvent list \<times> int" where
  "laytimeLoop [] acc = ([], acc)"
| "laytimeLoop (ev # evs) acc =
     (let (le, acc') = laytimeEvent ev acc;
          (les, acc'') = laytimeLoop evs acc'
      in (le # les, acc''))"

definition laytimeCalculation :: "instant Event list \<Rightarrow> LaytimeCalculation" where
  "laytimeCalculation valid =
     (let (les, totalLaytimeMinutes) = laytimeLoop valid 0;
          allowedLaytimeMinutes = 3 * 24 * 60;
          difference = allowedLaytimeMinutes - totalLaytimeMinutes
      in \<lparr>totalLaytime = formatMinutesToDuration totalLaytimeMinutes,
          allowedLaytime = ''3 days'',
          timeSaved = (if difference > 0 then formatMinutesToDuration difference else ''0m''),
          demurrage = (if difference < 0 then formatMinutesToDuration \<bar>difference\<bar> else ''0m''),
          demurrageCost = None,
          laytimeEvents = les\<rparr>)"

subsection \<open>The pipeline\<close>

record Enriched =
  enrichedBlocks :: "TimelineBlock list"
  enrichedLaytime :: LaytimeCalculation
  eventsSummary :: string

definition summaryText :: "instant Event list \<Rightarrow> instant Event list \<Rightarrow> LaytimeEvent list
    \<Rightarrow> error + string" where
  "summaryText sortedEvs valid les =
     (case sortedEvs of
        [] \<Rightarrow> Inl TypeError
      | s # ss \<Rightarrow>
          let totalTimeInPortMinutes = differenceInMinutes (endTime (last sortedEvs)) (startTime s);
              cargoOpsMinutes =
                foldl (\<lambda>acc e. acc + differenceInMinutes (lt_endTime e) (lt_startTime e)) 0
                  (filter isCounted les);
              delayMinutes =
                foldl (\<lambda>acc e. acc + differenceInMinutes (endTime e) (startTime e)) 0
                  (filter (\<lambda>e. category e = ''Delays'' \<or> category e = ''Stoppages'') valid)
          in Inr (''*   **Total time in port:** '' @ formatMinutesToDuration totalTimeInPortMinutes
                  @ [CHR 0x0A] @ ''*   **Total time on cargo operations:** ''
                  @ formatMinutesToDuration cargoOpsMinutes
                  @ [CHR 0x0A] @ ''*   **Total time lost to delays/stoppages:** ''
                  @ formatMinutesToDuration delayMinutes))"

text \<open>\<open>enrichedData\<close>: \<open>Inr None\<close> is the source's \<open>return null\<close>, \<open>Inl\<close> an exception
  that leaves the computation (nothing in the source catches one). The result carries
  the three computed fields; the other fields of \<open>extractedData\<close> (vessel name and so on)
  are copied through by the source and are left out. The allocator runs on the kept
  events in input order, the merger on \<open>sortedEvents\<close>.\<close>

definition enrichedData :: "stamp Event list \<Rightarrow> error + Enriched option" where
  "enrichedData events =
     (if length events = 0 then Inr None
      else
        let kept = validEvents events in
        if length kept = 0 then Inr None
        else
          case parsedEvents kept of
            None \<Rightarrow> Inl RangeError
          | Some valid \<Rightarrow>
              let sortedEvs = sortedEvents valid in
              (case sortedEvs of
                 [] \<Rightarrow> Inl TypeError
               | s0 # _ \<Rightarrow>
                   let firstEventTime = startTime s0 in
                   (case timelineBlocks firstEventTime sortedEvs of
                      Inl e \<Rightarrow> Inl e
                    | Inr blocks \<Rightarrow>
                        let calc = laytimeCalculation valid in
                        (case summaryText sortedEvs valid (laytimeEvents calc) of
                           Inl e \<Rightarrow> Inl e
                         | Inr summary \<Rightarrow>
                             Inr (Some \<lparr>enrichedBlocks = blocks, enrichedLaytime = calc,
                                        eventsSummary = summary\<rparr>)))))"

subsection \<open>The older merge of the dashboard\<close>






subsection \<open>Quantities of the specification\<close>

text \<open>The direct sum of the durations, in minutes, of the laytime events that are counted.\<close>

definition countedMinutes :: "LaytimeEvent list \<Rightarrow> int" where
  "countedMinutes les =
     sum_list (map (\<lambda>le. differenceInMinutes (lt_endTime le) (lt_startTime le))
                   (filter isCounted les))"

text \<open>The specification's formatter: the units days, hours and minutes in this order,
  each written as its value followed by its letter, zero-valued units left out, the units
  joined by single spaces; when no unit is left (a zero-length span) the text is \<open>0m\<close>.
  It is compared with \<open>formatMinutesToDuration\<close> below.\<close>

fun joinSpace :: "string list \<Rightarrow> string" where
  "joinSpace [] = []"
| "joinSpace [x] = x"
| "joinSpace (x # y # ys) = x @ '' '' @ joinSpace (y # ys)"

definition durationUnits :: "int \<Rightarrow> string list" where
  "durationUnits n =
     (let d = n div 1440; h = (n mod 1440) div 60; m = n mod 60 in
      (if d > 0 then [toString d @ ''d''] else []) @
      (if h > 0 then [toString h @ ''h''] else []) @
      (if m > 0 then [toString m @ ''m''] else []))"

definition durationText :: "int \<Rightarrow> string" where
  "durationText n = (if durationUnits n = [] then ''0m'' else joinSpace (durationUnits n))"

subsection \<open>Sample events\<close>

text \<open>Sample events for the concrete instances below; \<open>hour h\<close> is the instant
  \<open>h\<close> hours after the epoch.\<close>

definition sampleEvent :: "string \<Rightarrow> string \<Rightarrow> 't \<Rightarrow> 't \<Rightarrow> 't Event" where
  "sampleEvent n c s t =
     \<lparr>event = n, category = c, startTime = s, endTime = t, duration = '''',
      status = ''Completed'', remark = None\<rparr>"

definition hour :: "int \<Rightarrow> instant" where
  "hour h = h * 3600000"

definition sampleVoyage :: "instant Event list" where
  "sampleVoyage =
     [sampleEvent ''Loading'' ''Cargo Operations'' (hour 10) (hour 14),
      sampleEvent ''Rain'' ''Delays'' (hour 14) (hour 15),
      sampleEvent ''Bunkers'' ''Bunkering'' (hour 15) (hour 16)]"


definition inverted :: "instant Event list" where
  "inverted = [sampleEvent ''Loading'' ''Cargo Operations'' (hour 10) (hour 0)]"

definition overlappingCargo :: "instant Event list" where
  "overlappingCargo =
     [sampleEvent ''Loading hold 1'' ''Cargo Operations'' (hour 9) (hour 11),
      sampleEvent ''Loading hold 2'' ''Cargo Operations'' (hour 10) (hour 12)]"

definition missingEnd :: "stamp Event list" where
  "missingEnd =
     [sampleEvent ''NOR Tendered'' ''Arrival'' (At (hour 10)) Missing,
      sampleEvent ''Loading'' ''Cargo Operations'' (At (hour 12)) (At (hour 13))]"

definition invertedInput :: "stamp Event list" where
  "invertedInput =
     [sampleEvent ''Loading'' ''Cargo Operations'' (At (hour 10)) (At (hour 0))]"

definition garbledInput :: "stamp Event list" where
  "garbledInput =
     [sampleEvent ''Loading'' ''Cargo Operations'' (At (hour 10)) (At (hour 14)),
      sampleEvent ''Rain'' ''Delays'' Unparseable (At (hour 15))]"

definition scenarioD :: "instant Event list" where
  "scenarioD =
     [sampleEvent ''Loading hold 1'' ''Cargo Operations'' (hour 9) (hour 11),
      sampleEvent ''Loading hold 2'' ''Cargo Operations'' (hour 10) (hour 12)]"


definition twoBlocks :: "instant Event list" where
  "twoBlocks = scenarioD @ [sampleEvent ''Sailing'' ''Departure'' (hour 12) (hour 14)]"


subsection \<open>The invariant of the sweep\<close>

text \<open>The blocks of a loop state, the current one last; the earliest start and the
  latest end of a block's members; and the invariant of the sweep over events that are
  sorted by start and do not end before they start.\<close>

definition blocksOf :: "TimelineBlock list \<times> TimelineBlock option \<Rightarrow> TimelineBlock list" where
  "blocksOf st = fst st @ (case snd st of None \<Rightarrow> [] | Some c \<Rightarrow> [c])"

definition bStart :: "TimelineBlock \<Rightarrow> instant" where
  "bStart b = Min (startTime ` set (subEvents b))"

definition bEnd :: "TimelineBlock \<Rightarrow> instant" where
  "bEnd b = Max (endTime ` set (subEvents b))"

definition covers :: "TimelineBlock \<Rightarrow> bool" where
  "covers b \<longleftrightarrow>
     subEvents b \<noteq> [] \<and> bStart b \<le> bEnd b
     \<and> (\<Union>e \<in> set (subEvents b). {startTime e..endTime e}) = {bStart b..bEnd b}"

definition sweepInv ::
  "instant Event list \<Rightarrow> TimelineBlock list \<times> TimelineBlock option \<Rightarrow> bool" where
  "sweepInv pre st \<longleftrightarrow>
     (snd st = None \<longrightarrow> blocksOf st = [])
     \<and> concat (map subEvents (blocksOf st)) = pre
     \<and> (\<forall>b \<in> set (blocksOf st). covers b)
     \<and> sorted_wrt (\<lambda>a b. bEnd a \<le> bStart b) (blocksOf st)"



text \<open>What the sweep writes into a block: its start, its end and its interval on the chart,
  in hours from the first event.\<close>

definition written :: "instant \<Rightarrow> TimelineBlock \<Rightarrow> bool" where
  "written f b \<longleftrightarrow>
     blockStartTime b = bStart b \<and> blockEndTime b = bEnd b
     \<and> time b = (differenceInHours (bStart b) f, differenceInHours (bEnd b) f)"

section \<open>Properties\<close>

subsection \<open>Digits, decimal numbers and trimming\<close>

lemma digit_cases:
  assumes "d < 10"
  shows "d = 0 \<or> d = 1 \<or> d = 2 \<or> d = 3 \<or> d = 4 \<or> d = 5 \<or> d = 6 \<or> d = 7 \<or> d = 8 \<or> d = (9::nat)"
  using assms by arith

lemma digit_in: "d < 10 \<Longrightarrow> digit d \<in> set ''0123456789''"
  unfolding digit_def by (rule nth_mem) simp

lemma digit_nonzero: "0 < d \<Longrightarrow> d < 10 \<Longrightarrow> digit d \<noteq> CHR ''0''"
  using digit_cases [of d] by (auto simp: digit_def)

lemma toString_nat_nonempty: "toString_nat n \<noteq> []"
  by (subst toString_nat.simps) simp

lemma toString_nat_digits: "set (toString_nat n) \<subseteq> set ''0123456789''"
proof (induction n rule: toString_nat.induct)
  case (1 n)
  show ?case
  proof (cases "n < 10")
    case True
    then show ?thesis
      using digit_in [of n] by (subst toString_nat.simps) simp
  next
    case False
    have "n mod 10 < 10" by simp
    then have "digit (n mod 10) \<in> set ''0123456789''" by (rule digit_in)
    with False "1.IH" show ?thesis
      by (subst toString_nat.simps) simp
  qed
qed

lemma toString_nat_hd: "0 < n \<Longrightarrow> hd (toString_nat n) \<noteq> CHR ''0''"
proof (induction n rule: toString_nat.induct)
  case (1 n)
  show ?case
  proof (cases "n < 10")
    case True
    with "1.prems" show ?thesis
      using digit_nonzero [of n] by (subst toString_nat.simps) simp
  next
    case False
    then have "0 < n div 10" by simp
    with False "1.IH" have "hd (toString_nat (n div 10)) \<noteq> CHR ''0''" by simp
    with False show ?thesis
      by (subst toString_nat.simps) (simp add: toString_nat_nonempty)
  qed
qed

lemma toString_nonneg: "0 \<le> i \<Longrightarrow> toString i = toString_nat (nat i)"
  by (simp add: toString_def)

lemma toString_nonempty: "toString i \<noteq> []"
  by (simp add: toString_def toString_nat_nonempty)

lemma toString_digits: "0 \<le> i \<Longrightarrow> set (toString i) \<subseteq> set ''0123456789''"
  using toString_nat_digits [of "nat i"] by (simp only: toString_nonneg)

lemma toString_hd: "0 < i \<Longrightarrow> hd (toString i) \<noteq> CHR ''0''"
  using toString_nat_hd [of "nat i"] by (simp add: toString_nonneg)

lemma digits_not_white: "c \<in> set ''0123456789'' \<Longrightarrow> \<not> isWhite c"
  by (auto simp: isWhite_def)

lemma toString_hd_not_white: "0 \<le> i \<Longrightarrow> \<not> isWhite (hd (toString i))"
proof -
  assume "0 \<le> i"
  then have "set (toString i) \<subseteq> set ''0123456789''" by (rule toString_digits)
  moreover have "hd (toString i) \<in> set (toString i)"
    by (rule hd_in_set) (rule toString_nonempty)
  ultimately have "hd (toString i) \<in> set ''0123456789''" by blast
  then show ?thesis by (rule digits_not_white)
qed

lemma trim_keep:
  assumes "s \<noteq> []" "\<not> isWhite (hd s)" "\<not> isWhite c"
  shows "trim (s @ [c]) = s @ [c]"
proof -
  from assms(1,2) have "dropWhile isWhite (s @ [c]) = s @ [c]"
    by (cases s) simp_all
  with assms(3) show ?thesis by (simp add: trim_def)
qed

lemma trim_strip:
  assumes "s \<noteq> []" "\<not> isWhite (hd s)" "\<not> isWhite c"
  shows "trim (s @ c # '' '') = s @ [c]"
proof -
  from assms(1,2) have "dropWhile isWhite (s @ c # '' '') = s @ c # '' ''"
    by (cases s) simp_all
  moreover have "isWhite CHR '' ''" by (simp add: isWhite_def)
  ultimately show ?thesis using assms(3) by (simp add: trim_def)
qed

lemma set_trim: "set (trim s) \<subseteq> set s"
proof -
  have "set (trim s) = set (dropWhile isWhite (rev (dropWhile isWhite s)))"
    by (simp add: trim_def)
  also have "\<dots> \<subseteq> set (rev (dropWhile isWhite s))" by (rule set_dropWhileD [THEN subsetI])
  also have "\<dots> \<subseteq> set s" using set_dropWhileD [of _ isWhite s] by auto
  finally show ?thesis .
qed

lemma trim_units_keep:
  assumes "0 \<le> i" "\<not> isWhite c"
  shows "trim (toString i @ rest @ [c]) = toString i @ rest @ [c]"
proof -
  have "toString i @ rest \<noteq> []" by (simp add: toString_nonempty)
  moreover have "\<not> isWhite (hd (toString i @ rest))"
    using toString_hd_not_white [OF assms(1)] by (simp add: toString_nonempty)
  ultimately have "trim ((toString i @ rest) @ [c]) = (toString i @ rest) @ [c]"
    using assms(2) by (rule trim_keep)
  then show ?thesis by simp
qed

lemma trim_units_strip:
  assumes "0 \<le> i" "\<not> isWhite c"
  shows "trim (toString i @ rest @ [c, CHR '' '']) = toString i @ rest @ [c]"
proof -
  have "toString i @ rest \<noteq> []" by (simp add: toString_nonempty)
  moreover have "\<not> isWhite (hd (toString i @ rest))"
    using toString_hd_not_white [OF assms(1)] by (simp add: toString_nonempty)
  ultimately have "trim ((toString i @ rest) @ c # '' '') = (toString i @ rest) @ [c]"
    using assms(2) by (rule trim_strip)
  then show ?thesis by simp
qed

lemma unit_letters_not_white:
  "\<not> isWhite CHR ''d''" "\<not> isWhite CHR ''h''" "\<not> isWhite CHR ''m''"
  by (simp_all add: isWhite_def)

lemma format_positive:
  assumes "0 < n"
  shows "formatMinutesToDuration n = joinSpace (durationUnits n) \<and> durationUnits n \<noteq> []"
proof -
  define d where "d = n div 1440"
  define h where "h = (n mod 1440) div 60"
  define m where "m = n mod 60"
  have d0: "0 \<le> d" using assms by (simp add: d_def)
  have h0: "0 \<le> h" by (simp add: h_def)
  have m0: "0 \<le> m" by (simp add: m_def)
  have mm: "(n mod 1440) mod 60 = m"
    unfolding m_def by (rule mod_mod_cancel) simp
  have some: "0 < d \<or> 0 < h \<or> 0 < m"
  proof -
    have "n = d * 1440 + n mod 1440" by (simp add: d_def)
    moreover have "n mod 1440 = h * 60 + m" by (simp add: h_def flip: mm)
    ultimately show ?thesis using assms d0 h0 m0 by linarith
  qed
  have unfold_f: "formatMinutesToDuration n =
      trim ((if 0 < m \<or> (if 0 < h then (if 0 < d then toString d @ ''d '' else []) @ toString h @ ''h ''
                          else (if 0 < d then toString d @ ''d '' else [])) = []
             then (if 0 < h then (if 0 < d then toString d @ ''d '' else []) @ toString h @ ''h ''
                   else (if 0 < d then toString d @ ''d '' else [])) @ toString m @ ''m''
             else (if 0 < h then (if 0 < d then toString d @ ''d '' else []) @ toString h @ ''h ''
                   else (if 0 < d then toString d @ ''d '' else []))))"
    using assms by (simp add: formatMinutesToDuration_def Let_def js_rem_def mm
        flip: d_def h_def)
  have unfold_u: "durationUnits n =
      (if d > 0 then [toString d @ ''d''] else []) @
      (if h > 0 then [toString h @ ''h''] else []) @
      (if m > 0 then [toString m @ ''m''] else [])"
    by (simp add: durationUnits_def Let_def d_def h_def m_def)
  note nw = unit_letters_not_white
  have dz: "d = 0" if "\<not> 0 < d" using that d0 by simp
  have hz: "h = 0" if "\<not> 0 < h" using that h0 by simp
  have mz: "m = 0" if "\<not> 0 < m" using that m0 by simp
  have "(0 < d \<and> 0 < h \<and> 0 < m) \<or> (0 < d \<and> 0 < h \<and> m = 0)
      \<or> (0 < d \<and> h = 0 \<and> 0 < m) \<or> (0 < d \<and> h = 0 \<and> m = 0)
      \<or> (d = 0 \<and> 0 < h \<and> 0 < m) \<or> (d = 0 \<and> 0 < h \<and> m = 0)
      \<or> (d = 0 \<and> h = 0 \<and> 0 < m)"
    using dz hz mz some by blast
  then consider (dhm) "0 < d" "0 < h" "0 < m" | (dh) "0 < d" "0 < h" "m = 0"
    | (dm) "0 < d" "h = 0" "0 < m" | (d) "0 < d" "h = 0" "m = 0"
    | (hm) "d = 0" "0 < h" "0 < m" | (h) "d = 0" "0 < h" "m = 0"
    | (m) "d = 0" "h = 0" "0 < m"
    by blast
  then show ?thesis
  proof cases
    case dhm
    have "trim (toString d @ (''d '' @ toString h @ ''h '' @ toString m) @ [CHR ''m''])
        = toString d @ (''d '' @ toString h @ ''h '' @ toString m) @ [CHR ''m'']"
      using d0 nw(3) by (rule trim_units_keep)
    with dhm show ?thesis by (simp add: unfold_f unfold_u)
  next
    case dh
    have "trim (toString d @ (''d '' @ toString h) @ [CHR ''h'', CHR '' ''])
        = toString d @ (''d '' @ toString h) @ [CHR ''h'']"
      using d0 nw(2) by (rule trim_units_strip)
    with dh show ?thesis by (simp add: unfold_f unfold_u toString_nonempty)
  next
    case dm
    have "trim (toString d @ (''d '' @ toString m) @ [CHR ''m''])
        = toString d @ (''d '' @ toString m) @ [CHR ''m'']"
      using d0 nw(3) by (rule trim_units_keep)
    with dm show ?thesis by (simp add: unfold_f unfold_u)
  next
    case d
    have "trim (toString d @ [] @ [CHR ''d'', CHR '' '']) = toString d @ [] @ [CHR ''d'']"
      using d0 nw(1) by (rule trim_units_strip)
    with d show ?thesis by (simp add: unfold_f unfold_u toString_nonempty)
  next
    case hm
    have "trim (toString h @ (''h '' @ toString m) @ [CHR ''m''])
        = toString h @ (''h '' @ toString m) @ [CHR ''m'']"
      using h0 nw(3) by (rule trim_units_keep)
    with hm show ?thesis by (simp add: unfold_f unfold_u)
  next
    case h
    have "trim (toString h @ [] @ [CHR ''h'', CHR '' '']) = toString h @ [] @ [CHR ''h'']"
      using h0 nw(2) by (rule trim_units_strip)
    with h show ?thesis by (simp add: unfold_f unfold_u toString_nonempty)
  next
    case m
    have "trim (toString m @ [] @ [CHR ''m'']) = toString m @ [] @ [CHR ''m'']"
      using m0 nw(3) by (rule trim_units_keep)
    with m show ?thesis by (simp add: unfold_f unfold_u)
  qed
qed

subsection \<open>The duration formatter\<close>

lemma format_nonpositive: "n \<le> 0 \<Longrightarrow> formatMinutesToDuration n = ''0m''"
  by (simp add: formatMinutesToDuration_def)

lemma durationUnits_zero: "durationUnits 0 = []"
  by (simp add: durationUnits_def)

text \<open>
  Claim C8. \<open>formatMinutesToDuration\<close> renders a span of whole minutes with the units
  days, hours, minutes in this order, leaves out every zero-valued unit (so in particular
  the leading ones: below an hour only the minutes are shown), shows at least one unit
  for a positive span, and renders the zero-length span as \<open>0m\<close>; 240 minutes are
  rendered as \<open>4h\<close>.
\<close>

theorem formatMinutesToDuration_units:
  "(0 \<le> n \<longrightarrow> formatMinutesToDuration n = durationText n)
   \<and> (0 < n \<longrightarrow> durationUnits n \<noteq> [])
   \<and> (0 < n \<and> n < 60 \<longrightarrow> formatMinutesToDuration n = toString n @ ''m'')
   \<and> formatMinutesToDuration 0 = ''0m''
   \<and> formatMinutesToDuration 240 = ''4h''"
proof -
  have a: "formatMinutesToDuration n = durationText n" if "0 \<le> n"
  proof (cases "n = 0")
    case True
    then show ?thesis
      by (simp add: format_nonpositive durationText_def durationUnits_zero)
  next
    case False
    with that have "0 < n" by simp
    then show ?thesis
      using format_positive [of n] by (simp add: durationText_def)
  qed
  have b: "durationUnits n \<noteq> []" if "0 < n"
    using that format_positive [of n] by simp
  have c: "formatMinutesToDuration 0 = ''0m''"
    by (simp add: format_nonpositive)
  have d: "formatMinutesToDuration 240 = ''4h''"
    by code_simp
  have e: "formatMinutesToDuration n = toString n @ ''m''" if "0 < n \<and> n < 60"
  proof -
    from that have "durationUnits n = [toString n @ ''m'']"
      by (simp add: durationUnits_def)
    with that a [of] show ?thesis by (simp add: durationText_def)
  qed
  from a b c d e show ?thesis by blast
qed

theorem formatMinutesToDuration_units_witness:
  "(0::int) \<le> 1501 \<and> (0::int) < 1501
   \<and> formatMinutesToDuration 1501 = durationText 1501
   \<and> durationText 1501 = ''1d 1h 1m''
   \<and> durationUnits 1501 = [''1d'', ''1h'', ''1m'']"
proof -
  have "durationText 1501 = ''1d 1h 1m''" by code_simp
  moreover have "durationUnits 1501 = [''1d'', ''1h'', ''1m'']" by code_simp
  ultimately show ?thesis
    using formatMinutesToDuration_units [of 1501] by simp
qed

subsection \<open>The laytime allocator\<close>

lemma laytimeEvent_fst: "fst (laytimeEvent ev acc) = fst (laytimeEvent ev 0)"
  by (simp add: laytimeEvent_def Let_def split: prod.splits)

lemma laytimeEvent_snd:
  "snd (laytimeEvent ev acc) =
     acc + countedMinutes [fst (laytimeEvent ev 0)]"
  by (simp add: laytimeEvent_def countedMinutes_def Let_def split: prod.splits)

lemma laytimeLoop_eq:
  "laytimeLoop vs acc =
     (map (\<lambda>ev. fst (laytimeEvent ev 0)) vs,
      acc + countedMinutes (map (\<lambda>ev. fst (laytimeEvent ev 0)) vs))"
proof (induction vs arbitrary: acc)
  case Nil
  show ?case by (simp add: countedMinutes_def)
next
  case (Cons ev vs)
  obtain le acc' where step: "laytimeEvent ev acc = (le, acc')" by (cases "laytimeEvent ev acc")
  have le: "le = fst (laytimeEvent ev 0)"
    using step laytimeEvent_fst [of ev acc] by simp
  have acc': "acc' = acc + countedMinutes [fst (laytimeEvent ev 0)]"
    using step laytimeEvent_snd [of ev acc] by simp
  show ?case
    by (simp add: step Cons.IH le acc') (simp add: countedMinutes_def)
qed

lemma laytimeEvents_eq:
  "laytimeEvents (laytimeCalculation vs) = map (\<lambda>ev. fst (laytimeEvent ev 0)) vs"
  by (simp add: laytimeCalculation_def laytimeLoop_eq Let_def)

lemma laytime_fields:
  fixes vs
  defines "c \<equiv> countedMinutes (laytimeEvents (laytimeCalculation vs))"
  shows "totalLaytime (laytimeCalculation vs) = formatMinutesToDuration c"
    and "timeSaved (laytimeCalculation vs) = (if 4320 - c > 0 then formatMinutesToDuration (4320 - c) else ''0m'')"
    and "demurrage (laytimeCalculation vs) = (if 4320 - c < 0 then formatMinutesToDuration \<bar>4320 - c\<bar> else ''0m'')"
    and "demurrageCost (laytimeCalculation vs) = None"
  unfolding c_def laytimeEvents_eq
  by (simp_all add: laytimeCalculation_def laytimeLoop_eq Let_def)

lemma joinSpace_hd: "x \<noteq> [] \<Longrightarrow> hd (joinSpace (x # xs)) = hd x"
  by (cases xs) simp_all

lemma format_positive_hd:
  assumes "0 < n"
  shows "hd (formatMinutesToDuration n) \<noteq> CHR ''0''"
proof -
  define d where "d = n div 1440"
  define h where "h = (n mod 1440) div 60"
  define m where "m = n mod 60"
  have u: "durationUnits n =
      (if d > 0 then [toString d @ ''d''] else []) @
      (if h > 0 then [toString h @ ''h''] else []) @
      (if m > 0 then [toString m @ ''m''] else [])"
    by (simp add: durationUnits_def Let_def d_def h_def m_def)
  from assms have f: "formatMinutesToDuration n = joinSpace (durationUnits n)"
    and ne: "durationUnits n \<noteq> []"
    using format_positive [of n] by simp_all
  have "\<exists>x c rest. durationUnits n = (toString x @ [c]) # rest \<and> 0 < x"
  proof (cases "0 < d")
    case True
    then show ?thesis unfolding u by auto
  next
    case nd: False
    show ?thesis
    proof (cases "0 < h")
      case True
      with nd show ?thesis unfolding u by auto
    next
      case nh: False
      with nd ne have "0 < m" unfolding u by (auto split: if_splits)
      with nd nh show ?thesis unfolding u by auto
    qed
  qed
  then obtain x c rest where du: "durationUnits n = (toString x @ [c]) # rest" and x: "0 < x"
    by blast
  have "hd (formatMinutesToDuration n) = hd (toString x @ [c])"
    unfolding f du by (rule joinSpace_hd) simp
  also have "\<dots> = hd (toString x)" by (simp add: toString_nonempty)
  finally show ?thesis using toString_hd [OF x] by simp
qed

lemma format_zero_iff: "formatMinutesToDuration n = ''0m'' \<longleftrightarrow> n \<le> 0"
proof
  assume z: "formatMinutesToDuration n = ''0m''"
  show "n \<le> 0"
  proof (rule ccontr)
    assume "\<not> n \<le> 0"
    then have "0 < n" by simp
    then have "hd (formatMinutesToDuration n) \<noteq> CHR ''0''" by (rule format_positive_hd)
    with z show False by simp
  qed
next
  assume "n \<le> 0"
  then show "formatMinutesToDuration n = ''0m''" by (rule format_nonpositive)
qed

lemma toString_no_minus: "0 \<le> i \<Longrightarrow> CHR ''-'' \<notin> set (toString i)"
  using toString_digits [of i] by auto

lemma format_no_minus: "CHR ''-'' \<notin> set (formatMinutesToDuration n)"
proof (cases "n \<le> 0")
  case True
  then show ?thesis by (simp add: format_nonpositive)
next
  case False
  then have pos: "0 < n" by simp
  define d where "d = n div 1440"
  define h where "h = (n mod 1440) div 60"
  define m where "m = n mod 60"
  have d0: "0 \<le> d" using pos by (simp add: d_def)
  have h0: "0 \<le> h" by (simp add: h_def)
  have m0: "0 \<le> m" by (simp add: m_def)
  have u: "durationUnits n =
      (if d > 0 then [toString d @ ''d''] else []) @
      (if h > 0 then [toString h @ ''h''] else []) @
      (if m > 0 then [toString m @ ''m''] else [])"
    by (simp add: durationUnits_def Let_def d_def h_def m_def)
  have f: "formatMinutesToDuration n = joinSpace (durationUnits n)"
    using pos format_positive [of n] by simp
  show ?thesis
    unfolding f u
    using toString_no_minus [OF d0] toString_no_minus [OF h0] toString_no_minus [OF m0]
    by simp
qed

lemma laytimeEvent_classified:
  "(category ev = ''Cargo Operations'' \<longrightarrow>
      isCounted (fst (laytimeEvent ev acc))
      \<and> reason (fst (laytimeEvent ev acc)) = ''Cargo operations count towards laytime.'')
   \<and> (category ev = ''Delays'' \<or> category ev = ''Stoppages'' \<longrightarrow>
      \<not> isCounted (fst (laytimeEvent ev acc))
      \<and> reason (fst (laytimeEvent ev acc)) = ''Delays and stoppages generally do not count.'')
   \<and> (category ev \<noteq> ''Cargo Operations'' \<and> category ev \<noteq> ''Delays''
        \<and> category ev \<noteq> ''Stoppages'' \<longrightarrow>
      \<not> isCounted (fst (laytimeEvent ev acc))
      \<and> reason (fst (laytimeEvent ev acc)) = ''Not counted towards laytime.'')"
  by (simp add: laytimeEvent_def classify_def Let_def)

text \<open>
  Claim C4, as amended. The allocator classifies every event by its category alone:
  \<open>Cargo Operations\<close> is counted, with the reason "Cargo operations count towards laytime.";
  \<open>Delays\<close> and \<open>Stoppages\<close> are not counted, with the reason
  "Delays and stoppages generally do not count."; every other category is not counted, with
  the reason "Not counted towards laytime.".
\<close>

theorem laytime_classification:
  "length (laytimeEvents (laytimeCalculation vs)) = length vs
   \<and> (\<forall>i<length vs.
        (category (vs ! i) = ''Cargo Operations'' \<longrightarrow>
           isCounted (laytimeEvents (laytimeCalculation vs) ! i)
           \<and> reason (laytimeEvents (laytimeCalculation vs) ! i)
               = ''Cargo operations count towards laytime.'')
      \<and> (category (vs ! i) = ''Delays'' \<or> category (vs ! i) = ''Stoppages'' \<longrightarrow>
           \<not> isCounted (laytimeEvents (laytimeCalculation vs) ! i)
           \<and> reason (laytimeEvents (laytimeCalculation vs) ! i)
               = ''Delays and stoppages generally do not count.'')
      \<and> (category (vs ! i) \<noteq> ''Cargo Operations'' \<and> category (vs ! i) \<noteq> ''Delays''
           \<and> category (vs ! i) \<noteq> ''Stoppages'' \<longrightarrow>
           \<not> isCounted (laytimeEvents (laytimeCalculation vs) ! i)
           \<and> reason (laytimeEvents (laytimeCalculation vs) ! i)
               = ''Not counted towards laytime.''))"
proof -
  have "laytimeEvents (laytimeCalculation vs) ! i = fst (laytimeEvent (vs ! i) 0)"
    if "i < length vs" for i
    using that by (simp add: laytimeEvents_eq)
  then show ?thesis
    using laytimeEvent_classified [of "vs ! i" 0 for i]
    by (simp add: laytimeEvents_eq)
qed

lemma sampleVoyage_categories:
  "length sampleVoyage = 3"
  "category (sampleVoyage ! 0) = ''Cargo Operations''"
  "category (sampleVoyage ! Suc 0) = ''Delays''"
  "category (sampleVoyage ! 2) = ''Bunkering''"
  by (simp_all add: sampleVoyage_def sampleEvent_def)

theorem laytime_classification_witness:
  "isCounted (laytimeEvents (laytimeCalculation sampleVoyage) ! 0)
   \<and> reason (laytimeEvents (laytimeCalculation sampleVoyage) ! 0)
       = ''Cargo operations count towards laytime.''
   \<and> \<not> isCounted (laytimeEvents (laytimeCalculation sampleVoyage) ! 1)
   \<and> reason (laytimeEvents (laytimeCalculation sampleVoyage) ! 1)
       = ''Delays and stoppages generally do not count.''
   \<and> \<not> isCounted (laytimeEvents (laytimeCalculation sampleVoyage) ! 2)
   \<and> reason (laytimeEvents (laytimeCalculation sampleVoyage) ! 2)
       = ''Not counted towards laytime.''"
proof -
  note c = laytime_classification [of sampleVoyage, THEN conjunct2, rule_format]
  have "(0::nat) < length sampleVoyage" "1 < length sampleVoyage" "2 < length sampleVoyage"
    by (simp_all add: sampleVoyage_categories)
  from c [OF this(1)] c [OF this(2)] c [OF this(3)] show ?thesis
    by (simp add: sampleVoyage_categories)
qed

text \<open>The reason given for a \<open>Delays\<close> event is not the text
  "Delays and stoppages do not count towards laytime.".\<close>

theorem delays_reason_counterexample:
  "reason (laytimeEvents (laytimeCalculation
      [sampleEvent ''Rain'' ''Delays'' (hour 14) (hour 15)]) ! 0)
     \<noteq> ''Delays and stoppages do not count towards laytime.''"
  by code_simp

lemma countedMinutes_events:
  "countedMinutes (laytimeEvents (laytimeCalculation vs)) =
     sum_list (map (\<lambda>ev. differenceInMinutes (endTime ev) (startTime ev))
                   (filter (\<lambda>ev. category ev = ''Cargo Operations'') vs))"
  unfolding laytimeEvents_eq
  by (induction vs) (simp_all add: countedMinutes_def laytimeEvent_def classify_def Let_def)

text \<open>
  Claim C5. With \<open>counted\<close> the direct sum of the durations of the counted events (no
  overlap is removed) and 4320 minutes allowed, the summary shows
  \<open>timeSaved = max(0, allowed - counted)\<close> and \<open>demurrage = max(0, counted - allowed)\<close>,
  each rendered by the duration formatter; the two are never both positive.
\<close>

theorem laytime_summary:
  "(let calc = laytimeCalculation vs; counted = countedMinutes (laytimeEvents calc) in
      counted = sum_list (map (\<lambda>ev. differenceInMinutes (endTime ev) (startTime ev))
                              (filter (\<lambda>ev. category ev = ''Cargo Operations'') vs))
    \<and> totalLaytime calc = formatMinutesToDuration counted
    \<and> timeSaved calc = formatMinutesToDuration (max 0 (4320 - counted))
    \<and> demurrage calc = formatMinutesToDuration (max 0 (counted - 4320))
    \<and> (timeSaved calc \<noteq> ''0m'' \<longleftrightarrow> 0 < 4320 - counted)
    \<and> (demurrage calc \<noteq> ''0m'' \<longleftrightarrow> 0 < counted - 4320)
    \<and> (timeSaved calc = ''0m'' \<or> demurrage calc = ''0m''))"
proof -
  define c where "c = countedMinutes (laytimeEvents (laytimeCalculation vs))"
  note f = laytime_fields [of vs, folded c_def]
  have ts: "timeSaved (laytimeCalculation vs) = formatMinutesToDuration (max 0 (4320 - c))"
    by (simp add: f(2) format_nonpositive max_def)
  have dm: "demurrage (laytimeCalculation vs) = formatMinutesToDuration (max 0 (c - 4320))"
  proof (cases "4320 - c < 0")
    case True
    then have "\<bar>4320 - c\<bar> = max 0 (c - 4320)" by simp
    with True show ?thesis by (simp add: f(3))
  next
    case False
    then show ?thesis by (simp add: f(3) format_nonpositive max_def)
  qed
  have tz: "timeSaved (laytimeCalculation vs) \<noteq> ''0m'' \<longleftrightarrow> 0 < 4320 - c"
    unfolding ts format_zero_iff by auto
  have dz: "demurrage (laytimeCalculation vs) \<noteq> ''0m'' \<longleftrightarrow> 0 < c - 4320"
    unfolding dm format_zero_iff by auto
  have ex: "timeSaved (laytimeCalculation vs) = ''0m'' \<or> demurrage (laytimeCalculation vs) = ''0m''"
    using tz dz by linarith
  show ?thesis
    unfolding Let_def
    using countedMinutes_events [of vs] f(1) ts dm tz dz ex
    unfolding c_def by blast
qed

theorem laytime_summary_witness:
  "totalLaytime (laytimeCalculation overlappingCargo) = ''4h''
   \<and> timeSaved (laytimeCalculation overlappingCargo) = ''2d 20h''
   \<and> demurrage (laytimeCalculation overlappingCargo) = ''0m''
   \<and> countedMinutes (laytimeEvents (laytimeCalculation overlappingCargo)) = 240"
proof -
  have c: "countedMinutes (laytimeEvents (laytimeCalculation overlappingCargo)) = 240"
    by code_simp
  have "formatMinutesToDuration 240 = ''4h''"
    "formatMinutesToDuration (max 0 (4320 - 240)) = ''2d 20h''"
    "formatMinutesToDuration (max 0 (240 - 4320)) = ''0m''"
    by code_simp+
  with c laytime_summary [of overlappingCargo] show ?thesis
    by (simp add: Let_def)
qed




lemma differenceInMinutes_nonpositive: "l \<le> r \<Longrightarrow> differenceInMinutes l r \<le> 0"
proof -
  assume "l \<le> r"
  then have "0 \<le> (r - l) div 60000" by (simp add: pos_imp_zdiv_nonneg_iff)
  with \<open>l \<le> r\<close> show ?thesis
    by (cases "l = r") (simp_all add: differenceInMinutes_def trunc_div_def)
qed

lemma lt_duration_eq:
  "lt_duration (fst (laytimeEvent ev acc)) =
     formatMinutesToDuration (differenceInMinutes (endTime ev) (startTime ev))"
  by (simp add: laytimeEvent_def Let_def split: prod.splits)

text \<open>
  Claim C10. The formatter returns \<open>0m\<close> for every non-positive number of minutes; the
  \<open>timeSaved\<close>, \<open>demurrage\<close> and per-event duration texts of the allocator contain no minus
  sign, and an event whose end is not after its start has the duration text \<open>0m\<close>.
\<close>

theorem no_negative_display:
  "(n \<le> 0 \<longrightarrow> formatMinutesToDuration n = ''0m'')
   \<and> CHR ''-'' \<notin> set (timeSaved (laytimeCalculation vs))
   \<and> CHR ''-'' \<notin> set (demurrage (laytimeCalculation vs))
   \<and> (\<forall>le \<in> set (laytimeEvents (laytimeCalculation vs)). CHR ''-'' \<notin> set (lt_duration le))
   \<and> (\<forall>i<length vs. endTime (vs ! i) \<le> startTime (vs ! i) \<longrightarrow>
         lt_duration (laytimeEvents (laytimeCalculation vs) ! i) = ''0m'')"
proof -
  have a: "n \<le> 0 \<longrightarrow> formatMinutesToDuration n = ''0m''"
    by (simp add: format_nonpositive)
  have b: "CHR ''-'' \<notin> set (timeSaved (laytimeCalculation vs))"
    by (simp add: laytime_fields(2) format_no_minus)
  have c: "CHR ''-'' \<notin> set (demurrage (laytimeCalculation vs))"
    by (simp add: laytime_fields(3) format_no_minus)
  have d: "\<forall>le \<in> set (laytimeEvents (laytimeCalculation vs)). CHR ''-'' \<notin> set (lt_duration le)"
    by (auto simp: laytimeEvents_eq lt_duration_eq format_no_minus)
  have e: "\<forall>i<length vs. endTime (vs ! i) \<le> startTime (vs ! i) \<longrightarrow>
         lt_duration (laytimeEvents (laytimeCalculation vs) ! i) = ''0m''"
    by (simp add: laytimeEvents_eq lt_duration_eq format_nonpositive
        differenceInMinutes_nonpositive)
  from a b c d e show ?thesis by blast
qed

theorem no_negative_display_witness:
  "(-5::int) \<le> 0 \<and> formatMinutesToDuration (-5) = ''0m''
   \<and> endTime (inverted ! 0) \<le> startTime (inverted ! 0)
   \<and> lt_duration (laytimeEvents (laytimeCalculation inverted) ! 0) = ''0m''
   \<and> laytimeEvents (laytimeCalculation inverted) ! 0 \<in> set (laytimeEvents (laytimeCalculation inverted))
   \<and> CHR ''-'' \<notin> set (lt_duration (laytimeEvents (laytimeCalculation inverted) ! 0))
   \<and> CHR ''-'' \<notin> set (timeSaved (laytimeCalculation inverted))"
proof -
  have inv: "endTime (inverted ! 0) \<le> startTime (inverted ! 0)" "0 < length inverted"
    "inverted \<noteq> []"
    by (simp_all add: inverted_def sampleEvent_def hour_def)
  have mem: "laytimeEvents (laytimeCalculation inverted) ! 0
      \<in> set (laytimeEvents (laytimeCalculation inverted))"
    by (rule nth_mem) (simp add: laytimeEvents_eq inv(3))
  from no_negative_display [of "-5" inverted] inv mem show ?thesis
    by simp
qed

subsection \<open>The normalizer\<close>

lemma truthy_iff: "truthy s \<longleftrightarrow> s \<noteq> Missing"
  by (cases s) (simp_all add: truthy_def)

lemma parseISO_Some: "parseISO s = Some t \<longleftrightarrow> s = At t"
  by (cases s) (simp_all add: parseISO_def)

lemma validEvents_filter:
  "validEvents es = filter (\<lambda>e. startTime e \<noteq> Missing \<and> endTime e \<noteq> Missing) es"
  by (simp add: validEvents_def truthy_iff)

lemma validEvents_Nil:
  "validEvents es = [] \<longleftrightarrow> (\<forall>e \<in> set es. startTime e = Missing \<or> endTime e = Missing)"
  by (auto simp: validEvents_filter filter_empty_conv)

lemma parsed_widen: "parsed e = Some v \<Longrightarrow> widen v = e"
  by (cases e)
     (auto simp: parsed_def widen_def parseISO_Some split: option.splits)

lemma parsed_of_widen: "parsed (widen v) = Some v"
  by (cases v) (simp add: parsed_def widen_def parseISO_def)

lemma widen_times: "startTime (widen v) = At (startTime v)" "endTime (widen v) = At (endTime v)"
  by (simp_all add: widen_def)

lemma parsedEvents_widen: "parsedEvents es = Some vs \<Longrightarrow> map widen vs = es"
proof (induction es arbitrary: vs)
  case Nil
  then show ?case by simp
next
  case (Cons e es)
  from Cons.prems obtain v vs' where v: "parsed e = Some v"
    and vs': "parsedEvents es = Some vs'" and vs: "vs = v # vs'"
    by (auto split: option.splits)
  from Cons.IH [OF vs'] parsed_widen [OF v] show ?case by (simp add: vs)
qed

lemma parsedEvents_None:
  "parsedEvents es = None \<longleftrightarrow> (\<exists>e \<in> set es. parsed e = None)"
  by (induction es) (auto split: option.splits)

lemma parsed_None:
  "parsed e = None \<longleftrightarrow> parseISO (startTime e) = None \<or> parseISO (endTime e) = None"
  by (auto simp: parsed_def split: option.splits)

lemma parsedEvents_length: "parsedEvents es = Some vs \<Longrightarrow> length vs = length es"
  using parsedEvents_widen [of es vs] by (metis length_map)

lemma sortedEvents_set: "set (sortedEvents vs) = set vs"
  by (simp add: sortedEvents_def)

lemma sortedEvents_sorted: "sorted (map startTime (sortedEvents vs))"
  by (simp add: sortedEvents_def)

lemma sortedEvents_mset: "mset (sortedEvents vs) = mset vs"
  by (simp add: sortedEvents_def)

lemma sortedEvents_stable:
  "filter (\<lambda>e. startTime e = k) (sortedEvents vs) = filter (\<lambda>e. startTime e = k) vs"
  unfolding sortedEvents_def by (rule sort_key_stable)

text \<open>
  Claim C1, as amended. An input event is kept if and only if it has both a start and an
  end; an event that lacks its end (or its start) is discarded silently and no end is
  inferred. The kept events are passed on unchanged (their dates are those of their time
  stamps), stably sorted by start, and when no event is kept the pipeline returns
  \<open>null\<close>.
\<close>

theorem events_kept:
  "validEvents es = filter (\<lambda>e. startTime e \<noteq> Missing \<and> endTime e \<noteq> Missing) es
   \<and> (\<forall>vs. parsedEvents (validEvents es) = Some vs \<longrightarrow>
         map widen vs = filter (\<lambda>e. startTime e \<noteq> Missing \<and> endTime e \<noteq> Missing) es
         \<and> mset (sortedEvents vs) = mset vs
         \<and> sorted (map startTime (sortedEvents vs))
         \<and> (\<forall>k. filter (\<lambda>e. startTime e = k) (sortedEvents vs)
                = filter (\<lambda>e. startTime e = k) vs))
   \<and> ((\<forall>e \<in> set es. startTime e = Missing \<or> endTime e = Missing) \<longrightarrow>
        enrichedData es = Inr None)"
proof -
  have a: "validEvents es = filter (\<lambda>e. startTime e \<noteq> Missing \<and> endTime e \<noteq> Missing) es"
    by (rule validEvents_filter)
  have b: "map widen vs = filter (\<lambda>e. startTime e \<noteq> Missing \<and> endTime e \<noteq> Missing) es
         \<and> mset (sortedEvents vs) = mset vs
         \<and> sorted (map startTime (sortedEvents vs))
         \<and> (\<forall>k. filter (\<lambda>e. startTime e = k) (sortedEvents vs)
                = filter (\<lambda>e. startTime e = k) vs)"
    if "parsedEvents (validEvents es) = Some vs" for vs
    using parsedEvents_widen [OF that] sortedEvents_mset [of vs] sortedEvents_sorted [of vs]
      sortedEvents_stable [of _ vs]
    by (simp add: validEvents_filter)
  have c: "enrichedData es = Inr None"
    if "\<forall>e \<in> set es. startTime e = Missing \<or> endTime e = Missing"
  proof -
    from that have "validEvents es = []" by (simp add: validEvents_Nil)
    then show ?thesis by (simp add: enrichedData_def)
  qed
  from a b c show ?thesis by blast
qed

theorem events_kept_witness:
  "parsedEvents (validEvents missingEnd)
     = Some [sampleEvent ''Loading'' ''Cargo Operations'' (hour 12) (hour 13)]
   \<and> validEvents missingEnd
       = [sampleEvent ''Loading'' ''Cargo Operations'' (At (hour 12)) (At (hour 13))]
   \<and> mset (sortedEvents [sampleEvent ''Loading'' ''Cargo Operations'' (hour 12) (hour 13)])
       = mset [sampleEvent ''Loading'' ''Cargo Operations'' (hour 12) (hour 13)]
   \<and> endTime (sampleEvent ''NOR Tendered'' ''Arrival'' (At (hour 10)) Missing) = Missing
   \<and> enrichedData [sampleEvent ''NOR Tendered'' ''Arrival'' (At (hour 10)) Missing] = Inr None"
proof -
  have a: "filter (\<lambda>e. startTime e \<noteq> Missing \<and> endTime e \<noteq> Missing) missingEnd
      = [sampleEvent ''Loading'' ''Cargo Operations'' (At (hour 12)) (At (hour 13))]"
    by (simp add: missingEnd_def sampleEvent_def)
  have p: "parsedEvents [sampleEvent ''Loading'' ''Cargo Operations'' (At (hour 12)) (At (hour 13))]
      = Some [sampleEvent ''Loading'' ''Cargo Operations'' (hour 12) (hour 13)]"
    by (simp add: sampleEvent_def parsed_def parseISO_def)
  have b: "\<forall>e \<in> set [sampleEvent ''NOR Tendered'' ''Arrival'' (At (hour 10)) Missing].
         startTime e = Missing \<or> endTime e = Missing"
    by (simp add: sampleEvent_def)
  from events_kept [of missingEnd] a
  have v: "validEvents missingEnd
       = [sampleEvent ''Loading'' ''Cargo Operations'' (At (hour 12)) (At (hour 13))]"
    by simp
  with p have pv: "parsedEvents (validEvents missingEnd)
     = Some [sampleEvent ''Loading'' ''Cargo Operations'' (hour 12) (hour 13)]" by simp
  from events_kept [of missingEnd] pv
  have m: "mset (sortedEvents [sampleEvent ''Loading'' ''Cargo Operations'' (hour 12) (hour 13)])
       = mset [sampleEvent ''Loading'' ''Cargo Operations'' (hour 12) (hour 13)]"
    by blast
  from events_kept [of "[sampleEvent ''NOR Tendered'' ''Arrival'' (At (hour 10)) Missing]"] b
  have n: "enrichedData [sampleEvent ''NOR Tendered'' ''Arrival'' (At (hour 10)) Missing] = Inr None"
    by blast
  have "endTime (sampleEvent ''NOR Tendered'' ''Arrival'' (At (hour 10)) Missing) = Missing"
    by (simp add: sampleEvent_def)
  with v pv m n show ?thesis by blast
qed

text \<open>An event with a start and no end is dropped: of the two sample events only the
  second survives, and alone it makes the pipeline return \<open>null\<close>.\<close>

theorem missing_end_counterexample:
  "map_option sortedEvents (parsedEvents (validEvents missingEnd))
     = Some [sampleEvent ''Loading'' ''Cargo Operations'' (hour 12) (hour 13)]
   \<and> enrichedData [sampleEvent ''NOR Tendered'' ''Arrival'' (At (hour 10)) Missing] = Inr None"
  by code_simp

text \<open>
  Claim C7, as amended. Normalization neither rejects nor clamps an event whose end
  precedes its start: every normalized event is an input event with its start and end
  unchanged, and an inverted input event reaches the merger and the allocator inverted,
  with a non-positive duration in minutes.
\<close>

theorem inverted_events_kept:
  "\<forall>vs. parsedEvents (validEvents es) = Some vs \<longrightarrow>
     (\<forall>e \<in> set (sortedEvents vs). widen e \<in> set es)
     \<and> (\<forall>x \<in> set es. \<forall>s t. startTime x = At s \<and> endTime x = At t \<and> t < s \<longrightarrow>
          (\<exists>e \<in> set (sortedEvents vs).
             widen e = x \<and> startTime e = s \<and> endTime e = t \<and> endTime e < startTime e
             \<and> differenceInMinutes (endTime e) (startTime e) \<le> 0))"
proof (intro allI impI conjI ballI)
  fix vs e
  assume p: "parsedEvents (validEvents es) = Some vs" and "e \<in> set (sortedEvents vs)"
  then have "widen e \<in> set (map widen vs)" by (simp add: sortedEvents_set)
  then have "widen e \<in> set (validEvents es)" by (simp only: parsedEvents_widen [OF p])
  then show "widen e \<in> set es" by (simp add: validEvents_def)
next
  fix vs x s t
  assume p: "parsedEvents (validEvents es) = Some vs"
    and x: "x \<in> set es" and st: "startTime x = At s \<and> endTime x = At t \<and> t < s"
  then have "x \<in> set (validEvents es)" by (simp add: validEvents_filter)
  then have "x \<in> set (map widen vs)" by (simp only: parsedEvents_widen [OF p])
  then obtain v where v: "v \<in> set vs" and w: "widen v = x" by auto
  from w st have times: "startTime v = s" "endTime v = t"
    using widen_times [of v] by simp_all
  with st have "differenceInMinutes (endTime v) (startTime v) \<le> 0"
    by (simp add: differenceInMinutes_nonpositive)
  with v w times st
  show "\<exists>e \<in> set (sortedEvents vs).
           widen e = x \<and> startTime e = s \<and> endTime e = t \<and> endTime e < startTime e
           \<and> differenceInMinutes (endTime e) (startTime e) \<le> 0"
    by (auto simp: sortedEvents_set)
qed

theorem inverted_events_kept_witness:
  "parsedEvents (validEvents invertedInput)
     = Some [sampleEvent ''Loading'' ''Cargo Operations'' (hour 10) (hour 0)]
   \<and> (\<exists>e \<in> set (sortedEvents [sampleEvent ''Loading'' ''Cargo Operations'' (hour 10) (hour 0)]).
        startTime e = hour 10 \<and> endTime e = hour 0 \<and> endTime e < startTime e)"
proof -
  let ?x = "sampleEvent ''Loading'' ''Cargo Operations'' (At (hour 10)) (At (hour 0))"
  have p: "parsedEvents (validEvents invertedInput)
     = Some [sampleEvent ''Loading'' ''Cargo Operations'' (hour 10) (hour 0)]"
    by code_simp
  have "?x \<in> set invertedInput" by (simp add: invertedInput_def)
  moreover have "startTime ?x = At (hour 10) \<and> endTime ?x = At (hour 0) \<and> hour 0 < hour 10"
    by (simp add: sampleEvent_def hour_def)
  ultimately have "\<exists>e \<in> set (sortedEvents [sampleEvent ''Loading'' ''Cargo Operations'' (hour 10) (hour 0)]).
        startTime e = hour 10 \<and> endTime e = hour 0 \<and> endTime e < startTime e"
    using inverted_events_kept [of invertedInput] p by blast
  with p show ?thesis by blast
qed

text \<open>After normalization an event can end before it starts: the inverted sample event
  is the whole normalized sequence, unchanged.\<close>

theorem end_before_start_counterexample:
  "map_option sortedEvents (parsedEvents (validEvents invertedInput))
     = Some [sampleEvent ''Loading'' ''Cargo Operations'' (hour 10) (hour 0)]
   \<and> endTime (sampleEvent ''Loading'' ''Cargo Operations'' (hour 10) (hour 0))
       < startTime (sampleEvent ''Loading'' ''Cargo Operations'' (hour 10) (hour 0))"
proof -
  have "map_option sortedEvents (parsedEvents (validEvents invertedInput))
      = Some [sampleEvent ''Loading'' ''Cargo Operations'' (hour 10) (hour 0)]"
    by code_simp
  then show ?thesis by (simp add: sampleEvent_def hour_def)
qed

subsection \<open>The timeline merger\<close>

lemma max_dates_Max: "max_dates d ds = Max (set (d # ds))"
  unfolding max_dates_def by (rule Max.set_eq_fold [symmetric])

lemma min_dates_Min: "min_dates d ds = Min (set (d # ds))"
  unfolding min_dates_def by (rule Min.set_eq_fold [symmetric])

lemma max_dates_events:
  "max_dates (endTime s) (map endTime ss) = Max (endTime ` set (s # ss))"
  by (simp add: max_dates_Max)

lemma min_dates_events:
  "min_dates (startTime s) (map startTime ss) = Min (startTime ` set (s # ss))"
  by (simp add: min_dates_Min)

lemma max_dates_pair: "max_dates a [b] = max a b"
  by (simp add: max_dates_def max.commute)

lemma loopBody_first: "loopBody f ev (merged, None) = (merged, Some (newBlock f ev))"
  by (simp add: loopBody_def)

lemma loopBody_current:
  assumes "subEvents cb = s # ss"
  shows "loopBody f ev (merged, Some cb) =
           (if startTime ev < max_dates (endTime s) (map endTime ss)
            then (merged,
                  Some (cb\<lparr>subEvents := subEvents cb @ [ev],
                     blockEndTime := max (max_dates (endTime s) (map endTime ss)) (endTime ev),
                     time := (differenceInHours
                                (min_dates (startTime s) (map startTime (ss @ [ev]))) f,
                              differenceInHours
                                (max (max_dates (endTime s) (map endTime ss)) (endTime ev)) f)\<rparr>))
            else (merged @ [cb], Some (newBlock f ev)))"
  by (simp add: loopBody_def assms Let_def max_dates_pair)

lemma loopBody_append:
  assumes "subEvents cb = s # ss" "startTime ev < Max (endTime ` set (subEvents cb))"
  shows "loopBody f ev (merged, Some cb) =
           (merged,
            Some (cb\<lparr>subEvents := subEvents cb @ [ev],
                     blockEndTime := max (Max (endTime ` set (subEvents cb))) (endTime ev),
                     time := (differenceInHours (Min (startTime ` set (subEvents cb @ [ev]))) f,
                              differenceInHours
                                (max (Max (endTime ` set (subEvents cb))) (endTime ev)) f)\<rparr>))"
proof -
  have m: "max_dates (endTime s) (map endTime ss) = Max (endTime ` set (subEvents cb))"
    by (simp add: max_dates_events assms(1))
  have n: "min_dates (startTime s) (map startTime (ss @ [ev]))
      = Min (startTime ` set (subEvents cb @ [ev]))"
    using min_dates_events [of s "ss @ [ev]"] by (simp add: assms(1))
  show ?thesis
    unfolding loopBody_current [OF assms(1)] m n using assms(2) by (simp only: if_True)
qed

lemma loopBody_close:
  assumes "subEvents cb = s # ss" "\<not> startTime ev < Max (endTime ` set (subEvents cb))"
  shows "loopBody f ev (merged, Some cb) = (merged @ [cb], Some (newBlock f ev))"
proof -
  have m: "max_dates (endTime s) (map endTime ss) = Max (endTime ` set (subEvents cb))"
    by (simp add: max_dates_events assms(1))
  show ?thesis
    unfolding loopBody_current [OF assms(1)] m using assms(2) by (simp only: if_False)
qed

lemma Max_ends_snoc:
  "es \<noteq> [] \<Longrightarrow> Max (endTime ` set (es @ [ev])) = max (Max (endTime ` set es)) (endTime ev)"
  by (simp add: Max_insert max.commute)

lemma mergedBlocks_blocksOf:
  "mergedBlocks f es = blocksOf (fold (loopBody f) es ([], None))"
  by (cases es) (auto simp: mergedBlocks_def blocksOf_def split: prod.splits option.splits)

lemma blockSpan_eq: "subEvents b \<noteq> [] \<Longrightarrow> blockSpan b = Some (bStart b, bEnd b)"
  by (cases "subEvents b")
     (simp_all add: blockSpan_def bStart_def bEnd_def min_dates_events max_dates_events)

lemma covers_newBlock:
  "startTime ev \<le> endTime ev \<Longrightarrow> covers (newBlock f ev)"
  by (simp add: covers_def newBlock_def bStart_def bEnd_def)

lemma bStart_newBlock: "bStart (newBlock f ev) = startTime ev"
  by (simp add: newBlock_def bStart_def)

lemma interval_join:
  fixes a b s t :: int
  assumes "a \<le> s" "s \<le> b" "s \<le> t"
  shows "{a..b} \<union> {s..t} = {a..max b t}"
  using assms by auto

lemma covers_append:
  assumes c: "covers cb" and lo: "bStart cb \<le> startTime ev"
    and lt: "startTime ev < bEnd cb" and se: "startTime ev \<le> endTime ev"
    and sub: "subEvents cb' = subEvents cb @ [ev]"
  shows "covers cb' \<and> bStart cb' = bStart cb"
proof -
  from c have ne: "subEvents cb \<noteq> []" and le: "bStart cb \<le> bEnd cb"
    and un: "(\<Union>e \<in> set (subEvents cb). {startTime e..endTime e}) = {bStart cb..bEnd cb}"
    by (simp_all add: covers_def)
  have "bStart cb' = min (startTime ev) (bStart cb)"
    unfolding bStart_def sub using ne by simp
  with lo have s': "bStart cb' = bStart cb" by simp
  have "bEnd cb' = max (endTime ev) (bEnd cb)"
    unfolding bEnd_def sub using ne by simp
  then have e': "bEnd cb' = max (bEnd cb) (endTime ev)" by (simp add: max.commute)
  have "(\<Union>e \<in> set (subEvents cb'). {startTime e..endTime e})
      = {bStart cb..bEnd cb} \<union> {startTime ev..endTime ev}"
    using un by (simp add: sub Un_commute)
  also have "\<dots> = {bStart cb..max (bEnd cb) (endTime ev)}"
    using lo lt se by (intro interval_join) simp_all
  finally have u': "(\<Union>e \<in> set (subEvents cb'). {startTime e..endTime e})
      = {bStart cb'..bEnd cb'}"
    by (simp add: s' e')
  have "bStart cb' \<le> bEnd cb'" using le by (simp add: s' e')
  with u' s' show ?thesis by (simp add: covers_def sub)
qed

lemma bStart_le_member: "e \<in> set (subEvents b) \<Longrightarrow> bStart b \<le> startTime e"
  by (simp add: bStart_def)

lemma sweepInv_step:
  assumes inv: "sweepInv pre st"
    and srt: "\<forall>x \<in> set pre. startTime x \<le> startTime ev"
    and se: "startTime ev \<le> endTime ev"
  shows "sweepInv (pre @ [ev]) (loopBody f ev st)"
proof (cases "snd st")
  case None
  with inv have "blocksOf st = []" and "pre = []"
    by (auto simp: sweepInv_def)
  then have "fst st = []" by (simp add: blocksOf_def)
  with None have st: "st = ([], None)" by (cases st) simp
  show ?thesis
    using \<open>pre = []\<close> covers_newBlock [OF se, of f]
    by (simp add: st loopBody_first sweepInv_def blocksOf_def newBlock_def)
next
  case (Some cb)
  obtain merged where st: "st = (merged, Some cb)" using Some by (cases st) simp
  have bl: "blocksOf st = merged @ [cb]" by (simp add: st blocksOf_def)
  from inv have cat: "concat (map subEvents merged) @ subEvents cb = pre"
    and cov: "\<forall>b \<in> set merged. covers b" and ccb: "covers cb"
    and sw: "sorted_wrt (\<lambda>a b. bEnd a \<le> bStart b) merged"
    and before: "\<forall>a \<in> set merged. bEnd a \<le> bStart cb"
    by (auto simp: sweepInv_def bl sorted_wrt_append)
  from ccb obtain s ss where sub: "subEvents cb = s # ss"
    by (cases "subEvents cb") (auto simp: covers_def)
  have "s \<in> set pre" using cat sub by auto
  with srt have "startTime s \<le> startTime ev" by blast
  moreover have "bStart cb \<le> startTime s"
    by (rule bStart_le_member) (simp add: sub)
  ultimately have lo: "bStart cb \<le> startTime ev" by simp
  show ?thesis
  proof (cases "startTime ev < Max (endTime ` set (subEvents cb))")
    case True
    define cb' where "cb' = cb\<lparr>subEvents := subEvents cb @ [ev],
                     blockEndTime := max (Max (endTime ` set (subEvents cb))) (endTime ev),
                     time := (differenceInHours (Min (startTime ` set (subEvents cb @ [ev]))) f,
                              differenceInHours
                                (max (Max (endTime ` set (subEvents cb))) (endTime ev)) f)\<rparr>"
    have step: "loopBody f ev st = (merged, Some cb')"
      unfolding st cb'_def by (rule loopBody_append [OF sub True])
    have sub': "subEvents cb' = subEvents cb @ [ev]" by (simp add: cb'_def)
    from True have lt: "startTime ev < bEnd cb" by (simp add: bEnd_def)
    from covers_append [OF ccb lo lt se sub']
    have c': "covers cb'" and s': "bStart cb' = bStart cb" by simp_all
    have bl': "blocksOf (loopBody f ev st) = merged @ [cb']"
      by (simp add: step blocksOf_def)
    show ?thesis
      unfolding sweepInv_def bl'
      using cat cov c' sw before
      by (simp add: step sub' s' sorted_wrt_append)
  next
    case False
    have step: "loopBody f ev st = (merged @ [cb], Some (newBlock f ev))"
      unfolding st by (rule loopBody_close [OF sub False])
    from False have ge: "bEnd cb \<le> startTime ev" by (simp add: bEnd_def)
    from ccb have "bStart cb \<le> bEnd cb" by (simp add: covers_def)
    with before ge have far: "\<forall>a \<in> set merged. bEnd a \<le> startTime ev" by fastforce
    have bl': "blocksOf (loopBody f ev st) = merged @ [cb, newBlock f ev]"
      by (simp add: step blocksOf_def)
    have cat': "concat (map subEvents (merged @ [cb, newBlock f ev])) = pre @ [ev]"
      using cat by (simp add: newBlock_def)
    show ?thesis
      unfolding sweepInv_def bl'
      using cat' cov ccb covers_newBlock [OF se, of f] sw before far ge
      by (simp add: step sorted_wrt_append bStart_newBlock)
  qed
qed

lemma sweepInv_fold:
  assumes "sorted (map startTime es)" "\<forall>e \<in> set es. startTime e \<le> endTime e"
  shows "sweepInv es (fold (loopBody f) es ([], None))"
  using assms
proof (induction es rule: rev_induct)
  case Nil
  show ?case by (simp add: sweepInv_def blocksOf_def)
next
  case (snoc ev es)
  from snoc.prems(1) have srt: "sorted (map startTime es)"
    and le: "\<forall>x \<in> set es. startTime x \<le> startTime ev"
    by (auto simp: sorted_append)
  from snoc.prems(2) have se: "startTime ev \<le> endTime ev"
    and rest: "\<forall>e \<in> set es. startTime e \<le> endTime e" by simp_all
  from snoc.IH [OF srt rest] have "sweepInv es (fold (loopBody f) es ([], None))" .
  from sweepInv_step [OF this le se, of f] show ?case by simp
qed

lemma finishBlock_ok:
  "subEvents b \<noteq> [] \<Longrightarrow> \<exists>b'. finishBlock b = Inr b' \<and> subEvents b' = subEvents b"
  by (cases "subEvents b") (simp_all add: finishBlock_def Let_def)

lemma mapE_finishBlock:
  "\<forall>b \<in> set bs. subEvents b \<noteq> [] \<Longrightarrow>
     \<exists>bs'. mapE finishBlock bs = Inr bs' \<and> map subEvents bs' = map subEvents bs"
proof (induction bs)
  case Nil
  show ?case by simp
next
  case (Cons b bs)
  from Cons.prems obtain b' where b': "finishBlock b = Inr b'" "subEvents b' = subEvents b"
    using finishBlock_ok [of b] by auto
  from Cons obtain bs' where bs': "mapE finishBlock bs = Inr bs'"
    "map subEvents bs' = map subEvents bs" by auto
  show ?case by (simp add: b' bs')
qed

lemma blockSpan_map:
  assumes eq: "map subEvents xs = map subEvents ys"
  shows "map blockSpan xs = map blockSpan ys"
proof -
  define g where "g = (\<lambda>es :: instant Event list. case es of [] \<Rightarrow> None
      | s # ss \<Rightarrow> Some (min_dates (startTime s) (map startTime ss),
                        max_dates (endTime s) (map endTime ss)))"
  have bs: "blockSpan = g \<circ> subEvents"
    by (rule ext) (simp add: blockSpan_def g_def)
  have "map blockSpan xs = map g (map subEvents xs)" unfolding bs by simp
  also have "\<dots> = map g (map subEvents ys)" by (simp only: eq)
  also have "\<dots> = map blockSpan ys" unfolding bs by simp
  finally show ?thesis .
qed

lemma blockSpan_covers:
  "\<forall>b \<in> set bs. covers b \<Longrightarrow> map blockSpan bs = map Some (map (\<lambda>b. (bStart b, bEnd b)) bs)"
  by (induction bs) (simp_all add: blockSpan_eq covers_def)

lemma spans_union:
  assumes "\<forall>b \<in> set bs. covers b"
  shows "(\<Union>(s, t) \<in> set (map (\<lambda>b. (bStart b, bEnd b)) bs). {s..t})
       = (\<Union>e \<in> set (concat (map subEvents bs)). {startTime e..endTime e})"
proof -
  have "(\<Union>(s, t) \<in> set (map (\<lambda>b. (bStart b, bEnd b)) bs). {s..t})
      = (\<Union>b \<in> set bs. {bStart b..bEnd b})" by auto
  also have "\<dots> = (\<Union>b \<in> set bs. \<Union>e \<in> set (subEvents b). {startTime e..endTime e})"
    using assms by (simp add: covers_def)
  also have "\<dots> = (\<Union>e \<in> set (concat (map subEvents bs)). {startTime e..endTime e})"
    by auto
  finally show ?thesis .
qed

lemma spans_sorted:
  assumes "\<forall>b \<in> set bs. covers b" "sorted_wrt (\<lambda>a b. bEnd a \<le> bStart b) bs"
  shows "sorted_wrt (\<lambda>a b. snd a \<le> fst b) (map (\<lambda>b. (bStart b, bEnd b)) bs)"
    and "sorted (map fst (map (\<lambda>b. (bStart b, bEnd b)) bs))"
proof -
  show "sorted_wrt (\<lambda>a b. snd a \<le> fst b) (map (\<lambda>b. (bStart b, bEnd b)) bs)"
    using assms(2) by (simp add: sorted_wrt_map)
  have "sorted_wrt (\<lambda>a b. bStart a \<le> bStart b) bs"
  proof (rule sorted_wrt_mono_rel [OF _ assms(2)])
    fix a b assume "a \<in> set bs" "b \<in> set bs" "bEnd a \<le> bStart b"
    moreover from \<open>a \<in> set bs\<close> assms(1) have "bStart a \<le> bEnd a" by (simp add: covers_def)
    ultimately show "bStart a \<le> bStart b" by simp
  qed
  then show "sorted (map fst (map (\<lambda>b. (bStart b, bEnd b)) bs))"
    by (simp add: sorted_map comp_def)
qed

lemma written_newBlock: "written f (newBlock f ev)"
  by (simp add: written_def newBlock_def bStart_def bEnd_def)

lemma written_step:
  assumes inv: "sweepInv pre st"
    and w: "\<forall>b \<in> set (blocksOf st). written f b"
    and srt: "\<forall>x \<in> set pre. startTime x \<le> startTime ev"
    and se: "startTime ev \<le> endTime ev"
  shows "\<forall>b \<in> set (blocksOf (loopBody f ev st)). written f b"
proof (cases "snd st")
  case None
  then obtain merged where st: "st = (merged, None)" by (cases st) simp
  from w show ?thesis
    by (simp add: st loopBody_first blocksOf_def written_newBlock)
next
  case (Some cb)
  obtain merged where st: "st = (merged, Some cb)" using Some by (cases st) simp
  have bl: "blocksOf st = merged @ [cb]" by (simp add: st blocksOf_def)
  from inv have cat: "concat (map subEvents merged) @ subEvents cb = pre"
    and ccb: "covers cb"
    by (auto simp: sweepInv_def bl)
  from w have wm: "\<forall>b \<in> set merged. written f b" and wcb: "written f cb"
    by (simp_all add: bl)
  from ccb obtain s ss where sub: "subEvents cb = s # ss"
    by (cases "subEvents cb") (auto simp: covers_def)
  have "s \<in> set pre" using cat sub by auto
  with srt have "startTime s \<le> startTime ev" by blast
  moreover have "bStart cb \<le> startTime s"
    by (rule bStart_le_member) (simp add: sub)
  ultimately have lo: "bStart cb \<le> startTime ev" by simp
  show ?thesis
  proof (cases "startTime ev < Max (endTime ` set (subEvents cb))")
    case True
    define cb' where "cb' = cb\<lparr>subEvents := subEvents cb @ [ev],
                     blockEndTime := max (Max (endTime ` set (subEvents cb))) (endTime ev),
                     time := (differenceInHours (Min (startTime ` set (subEvents cb @ [ev]))) f,
                              differenceInHours
                                (max (Max (endTime ` set (subEvents cb))) (endTime ev)) f)\<rparr>"
    have step: "loopBody f ev st = (merged, Some cb')"
      unfolding st cb'_def by (rule loopBody_append [OF sub True])
    have sub': "subEvents cb' = subEvents cb @ [ev]" by (simp add: cb'_def)
    from True have lt: "startTime ev < bEnd cb" by (simp add: bEnd_def)
    from covers_append [OF ccb lo lt se sub'] have s': "bStart cb' = bStart cb" by simp
    have ne: "subEvents cb \<noteq> []" by (simp add: sub)
    have e': "bEnd cb' = max (Max (endTime ` set (subEvents cb))) (endTime ev)"
      unfolding bEnd_def sub' by (rule Max_ends_snoc [OF ne])
    have m': "Min (startTime ` set (subEvents cb @ [ev])) = bStart cb'"
      by (simp add: bStart_def sub')
    have "blockStartTime cb' = blockStartTime cb" by (simp add: cb'_def)
    with wcb s' have 1: "blockStartTime cb' = bStart cb'" by (simp add: written_def)
    have 2: "blockEndTime cb' = bEnd cb'" unfolding e' by (simp add: cb'_def)
    have 3: "time cb' = (differenceInHours (bStart cb') f, differenceInHours (bEnd cb') f)"
      unfolding e' m' [symmetric] by (simp add: cb'_def)
    from 1 2 3 have "written f cb'" by (simp add: written_def)
    with wm show ?thesis by (simp add: step blocksOf_def)
  next
    case False
    have step: "loopBody f ev st = (merged @ [cb], Some (newBlock f ev))"
      unfolding st by (rule loopBody_close [OF sub False])
    from wm wcb show ?thesis
      by (simp add: step blocksOf_def written_newBlock)
  qed
qed

lemma written_fold:
  assumes "sorted (map startTime es)" "\<forall>e \<in> set es. startTime e \<le> endTime e"
  shows "\<forall>b \<in> set (blocksOf (fold (loopBody f) es ([], None))). written f b"
  using assms
proof (induction es rule: rev_induct)
  case Nil
  show ?case by (simp add: blocksOf_def)
next
  case (snoc ev es)
  from snoc.prems(1) have srt: "sorted (map startTime es)"
    and le: "\<forall>x \<in> set es. startTime x \<le> startTime ev"
    by (auto simp: sorted_append)
  from snoc.prems(2) have se: "startTime ev \<le> endTime ev"
    and rest: "\<forall>e \<in> set es. startTime e \<le> endTime e" by simp_all
  have inv: "sweepInv es (fold (loopBody f) es ([], None))"
    using srt rest by (rule sweepInv_fold)
  from written_step [OF inv snoc.IH [OF srt rest] le se] show ?case by simp
qed

lemma finishBlock_fields:
  assumes "finishBlock b = Inr b'"
  shows "subEvents b' = subEvents b" "blockStartTime b' = blockStartTime b"
    "blockEndTime b' = blockEndTime b" "time b' = time b"
    "subEvents b \<noteq> []"
    "blockDuration b' = formatMinutesToDuration (differenceInMinutes (bEnd b) (bStart b))"
proof -
  from assms obtain s ss where sub: "subEvents b = s # ss"
    by (cases "subEvents b") (simp_all add: finishBlock_def)
  define n where "n = (if length (subEvents b) > 1
                       then toString_nat (length (subEvents b)) @ '' Overlapping Events''
                       else event s)"
  have "finishBlock b = Inr (b\<lparr>name := n, blockCategory := category (foldl longer s ss),
      blockDuration := formatMinutesToDuration (differenceInMinutes
        (max_dates (endTime s) (map endTime ss)) (min_dates (startTime s) (map startTime ss)))\<rparr>)"
    unfolding finishBlock_def n_def by (simp add: sub Let_def)
  with assms have b': "b' = b\<lparr>name := n, blockCategory := category (foldl longer s ss),
      blockDuration := formatMinutesToDuration (differenceInMinutes
        (max_dates (endTime s) (map endTime ss)) (min_dates (startTime s) (map startTime ss)))\<rparr>"
    by simp
  show "subEvents b' = subEvents b" "blockStartTime b' = blockStartTime b"
    "blockEndTime b' = blockEndTime b" "time b' = time b"
    by (simp_all add: b')
  show "subEvents b \<noteq> []" by (simp add: sub)
  have "bStart b = min_dates (startTime s) (map startTime ss)"
    "bEnd b = max_dates (endTime s) (map endTime ss)"
    by (simp_all only: bStart_def bEnd_def sub min_dates_events max_dates_events)
  then show "blockDuration b' = formatMinutesToDuration (differenceInMinutes (bEnd b) (bStart b))"
    by (simp add: b')
qed

lemma mapE_rel: "mapE f xs = Inr ys \<Longrightarrow> list_all2 (\<lambda>x y. f x = Inr y) xs ys"
proof (induction xs arbitrary: ys)
  case Nil
  then show ?case by simp
next
  case (Cons x xs)
  from Cons.prems obtain y where y: "f x = Inr y"
    by (cases "f x") simp_all
  from Cons.prems y obtain ys' where ys': "mapE f xs = Inr ys'"
    by (cases "mapE f xs") simp_all
  from Cons.prems have ys: "ys = y # ys'"
    by (simp only: mapE.simps y ys' sum.case sum.inject)
  have tl: "list_all2 (\<lambda>x y. f x = Inr y) xs ys'" using ys' by (rule Cons.IH)
  show ?case unfolding ys
    by (rule list_all2_Cons [THEN iffD2]) (rule conjI [OF y tl])
qed

lemma list_all2_preimage:
  assumes "list_all2 P xs ys" "y \<in> set ys"
  shows "\<exists>x \<in> set xs. P x y"
proof -
  from assms(2) obtain i where "i < length ys" "ys ! i = y"
    by (auto simp: in_set_conv_nth)
  with assms(1) have "i < length xs" "P (xs ! i) y"
    by (auto simp: list_all2_conv_all_nth)
  then show ?thesis using nth_mem by blast
qed

lemma finished_written:
  assumes cov: "\<forall>b \<in> set ms. covers b" and w: "\<forall>b \<in> set ms. written f b"
    and fin: "mapE finishBlock ms = Inr bs"
  shows "\<forall>b \<in> set bs. blockSpan b = Some (blockStartTime b, blockEndTime b)
           \<and> time b = (differenceInHours (blockStartTime b) f,
                       differenceInHours (blockEndTime b) f)
           \<and> blockDuration b = formatMinutesToDuration
                 (differenceInMinutes (blockEndTime b) (blockStartTime b))"
proof
  fix b' assume mem: "b' \<in> set bs"
  have rel: "list_all2 (\<lambda>x y. finishBlock x = Inr y) ms bs" using fin by (rule mapE_rel)
  from list_all2_preimage [OF rel mem]
  obtain b where b: "b \<in> set ms" and fb: "finishBlock b = Inr b'" by blast
  note ff = finishBlock_fields [OF fb]
  from b w have "written f b" by blast
  then have wb: "blockStartTime b = bStart b" "blockEndTime b = bEnd b"
    "time b = (differenceInHours (bStart b) f, differenceInHours (bEnd b) f)"
    by (simp_all add: written_def)
  have st: "bStart b' = bStart b" "bEnd b' = bEnd b"
    unfolding bStart_def bEnd_def by (simp_all only: ff(1))
  have ne: "subEvents b' \<noteq> []" unfolding ff(1) by (rule ff(5))
  have sp: "blockSpan b' = Some (bStart b, bEnd b)"
    using blockSpan_eq [OF ne] by (simp only: st)
  have f1: "blockStartTime b' = bStart b" by (simp only: ff(2) wb(1))
  have f2: "blockEndTime b' = bEnd b" by (simp only: ff(3) wb(2))
  have f3: "time b' = (differenceInHours (bStart b) f, differenceInHours (bEnd b) f)"
    by (simp only: ff(4) wb(3))
  show "blockSpan b' = Some (blockStartTime b', blockEndTime b')
           \<and> time b' = (differenceInHours (blockStartTime b') f,
                       differenceInHours (blockEndTime b') f)
           \<and> blockDuration b' = formatMinutesToDuration
                 (differenceInMinutes (blockEndTime b') (blockStartTime b'))"
    unfolding f1 f2 using sp f3 ff(6) by (intro conjI)
qed

text \<open>
  Claim C3. On events that are sorted by start and never end before they start, the
  merger returns blocks, each with a span, such that any earlier block ends no later than
  any later block starts (so consecutive blocks satisfy \<open>end i \<le> start (i + 1)\<close>), the
  blocks are in ascending order of their starts, the union of the block spans is the
  union of the event spans, and the members of the blocks, in order, are the events.
  The span of a block is the earliest start and the latest end of its members, and it is
  what the block carries: the start and the end that the sweep wrote into it, its chart
  interval and its duration text are those of the span.
\<close>

theorem merged_blocks_disjoint:
  assumes "sorted (map startTime es)" "\<forall>e \<in> set es. startTime e \<le> endTime e"
  shows "\<exists>bs spans. timelineBlocks f es = Inr bs
     \<and> map blockSpan bs = map Some spans
     \<and> sorted_wrt (\<lambda>a b. snd a \<le> fst b) spans
     \<and> (\<forall>i. Suc i < length spans \<longrightarrow> snd (spans ! i) \<le> fst (spans ! Suc i))
     \<and> sorted (map fst spans)
     \<and> (\<Union>(s, t) \<in> set spans. {s..t}) = (\<Union>e \<in> set es. {startTime e..endTime e})
     \<and> concat (map subEvents bs) = es
     \<and> (\<forall>b \<in> set bs. blockSpan b = Some (blockStartTime b, blockEndTime b)
           \<and> time b = (differenceInHours (blockStartTime b) f,
                       differenceInHours (blockEndTime b) f)
           \<and> blockDuration b = formatMinutesToDuration
                 (differenceInMinutes (blockEndTime b) (blockStartTime b)))"
proof -
  define ms where "ms = mergedBlocks f es"
  have "sweepInv es (fold (loopBody f) es ([], None))"
    using assms by (rule sweepInv_fold)
  then have cat: "concat (map subEvents ms) = es"
    and cov: "\<forall>b \<in> set ms. covers b"
    and sw: "sorted_wrt (\<lambda>a b. bEnd a \<le> bStart b) ms"
    by (simp_all add: sweepInv_def ms_def mergedBlocks_blocksOf)
  from cov have "\<forall>b \<in> set ms. subEvents b \<noteq> []" by (simp add: covers_def)
  then obtain bs where bs: "mapE finishBlock ms = Inr bs"
    and same: "map subEvents bs = map subEvents ms"
    using mapE_finishBlock [of ms] by blast
  define spans where "spans = map (\<lambda>b. (bStart b, bEnd b)) ms"
  have 1: "timelineBlocks f es = Inr bs" by (simp add: timelineBlocks_def bs flip: ms_def)
  have 2: "map blockSpan bs = map Some spans"
    using blockSpan_map [OF same] blockSpan_covers [OF cov] by (simp add: spans_def)
  have 3: "sorted_wrt (\<lambda>a b. snd a \<le> fst b) spans"
    unfolding spans_def using cov sw by (rule spans_sorted(1))
  have 4: "\<forall>i. Suc i < length spans \<longrightarrow> snd (spans ! i) \<le> fst (spans ! Suc i)"
    using 3 by (auto simp: sorted_wrt_iff_nth_less)
  have 5: "sorted (map fst spans)"
    unfolding spans_def using cov sw by (rule spans_sorted(2))
  have 6: "(\<Union>(s, t) \<in> set spans. {s..t}) = (\<Union>e \<in> set es. {startTime e..endTime e})"
    unfolding spans_def spans_union [OF cov] cat ..
  have 7: "concat (map subEvents bs) = es" by (simp add: same cat)
  have wr: "\<forall>b \<in> set ms. written f b"
    unfolding ms_def mergedBlocks_blocksOf using assms by (rule written_fold)
  note 8 = finished_written [OF cov wr bs]
  from 1 2 3 4 5 6 7 8 show ?thesis by blast
qed

theorem merged_blocks_disjoint_witness:
  "sorted (map startTime twoBlocks) \<and> list_all (\<lambda>e. startTime e \<le> endTime e) twoBlocks
   \<and> map_sum id (map (\<lambda>b. (blockStartTime b, blockEndTime b, time b, blockDuration b)))
        (timelineBlocks (hour 9) twoBlocks)
       = Inr [(hour 9, hour 12, (0, 3), ''3h''), (hour 12, hour 14, (3, 5), ''2h'')]
   \<and> (\<exists>bs spans. timelineBlocks (hour 9) twoBlocks = Inr bs
     \<and> map blockSpan bs = map Some spans
     \<and> sorted_wrt (\<lambda>a b. snd a \<le> fst b) spans
     \<and> (\<forall>i. Suc i < length spans \<longrightarrow> snd (spans ! i) \<le> fst (spans ! Suc i))
     \<and> sorted (map fst spans)
     \<and> (\<Union>(s, t) \<in> set spans. {s..t}) = (\<Union>e \<in> set twoBlocks. {startTime e..endTime e})
     \<and> concat (map subEvents bs) = twoBlocks
     \<and> (\<forall>b \<in> set bs. blockSpan b = Some (blockStartTime b, blockEndTime b)
           \<and> time b = (differenceInHours (blockStartTime b) (hour 9),
                       differenceInHours (blockEndTime b) (hour 9))
           \<and> blockDuration b = formatMinutesToDuration
                 (differenceInMinutes (blockEndTime b) (blockStartTime b))))"
proof -
  have a: "sorted (map startTime twoBlocks)"
    by (simp add: twoBlocks_def scenarioD_def sampleEvent_def hour_def)
  have b: "\<forall>e \<in> set twoBlocks. startTime e \<le> endTime e"
    by (simp add: twoBlocks_def scenarioD_def sampleEvent_def hour_def)
  have c: "list_all (\<lambda>e. startTime e \<le> endTime e) twoBlocks"
    using b by (simp add: list_all_iff)
  have d: "map_sum id (map (\<lambda>b. (blockStartTime b, blockEndTime b, time b, blockDuration b)))
        (timelineBlocks (hour 9) twoBlocks)
       = Inr [(hour 9, hour 12, (0, 3), ''3h''), (hour 12, hour 14, (3, 5), ''2h'')]"
    by code_simp
  from merged_blocks_disjoint [OF a b, of "hour 9"] a c d show ?thesis by blast
qed

lemma nonempty_step:
  assumes "\<forall>b \<in> set (blocksOf st). subEvents b \<noteq> []"
  shows "\<forall>b \<in> set (blocksOf (loopBody f ev st)). subEvents b \<noteq> []"
proof (cases "snd st")
  case None
  then obtain merged where st: "st = (merged, None)" by (cases st) simp
  show ?thesis using assms by (simp add: st loopBody_first blocksOf_def newBlock_def)
next
  case (Some cb)
  then obtain merged where st: "st = (merged, Some cb)" by (cases st) simp
  from assms have "subEvents cb \<noteq> []" by (simp add: st blocksOf_def)
  then obtain s ss where sub: "subEvents cb = s # ss" by (cases "subEvents cb") auto
  show ?thesis
    using assms
    by (simp add: st loopBody_current [OF sub] blocksOf_def newBlock_def)
qed

lemma nonempty_fold:
  "\<forall>b \<in> set (blocksOf (fold (loopBody f) es ([], None))). subEvents b \<noteq> []"
proof (induction es rule: rev_induct)
  case Nil
  show ?case by (simp add: blocksOf_def)
next
  case (snoc ev es)
  from nonempty_step [OF snoc.IH, of _ ev] show ?case by simp
qed

lemma timelineBlocks_total: "\<exists>bs. timelineBlocks f es = Inr bs"
  unfolding timelineBlocks_def mergedBlocks_blocksOf
  using mapE_finishBlock [OF nonempty_fold [of f es]] by blast

lemma summaryText_total: "sortedEvs \<noteq> [] \<Longrightarrow> \<exists>t. summaryText sortedEvs valid les = Inr t"
  by (cases sortedEvs) (simp_all add: summaryText_def Let_def)

lemma sortedEvents_Nil: "sortedEvents vs = [] \<longleftrightarrow> vs = []"
  using sortedEvents_mset [of vs] by (metis mset_zero_iff)

lemma loopBody_current_Some: "snd (loopBody f ev st) \<noteq> None"
proof (cases "snd st")
  case None
  then obtain merged where "st = (merged, None)" by (cases st) simp
  then show ?thesis by (simp add: loopBody_first)
next
  case (Some cb)
  then obtain merged where st: "st = (merged, Some cb)" by (cases st) simp
  show ?thesis
  proof (cases "subEvents cb")
    case Nil
    then show ?thesis by (simp add: st loopBody_def)
  next
    case (Cons s ss)
    then show ?thesis by (simp add: st loopBody_current)
  qed
qed

lemma mergedBlocks_nonempty: "es \<noteq> [] \<Longrightarrow> mergedBlocks f es \<noteq> []"
proof (induction es rule: rev_induct)
  case Nil
  then show ?case by simp
next
  case (snoc ev es)
  have "snd (fold (loopBody f) (es @ [ev]) ([], None)) \<noteq> None"
    by (simp add: loopBody_current_Some)
  then show ?case
    unfolding mergedBlocks_blocksOf blocksOf_def by (auto split: option.splits)
qed

lemma timelineBlocks_nonempty:
  assumes "es \<noteq> []" "timelineBlocks f es = Inr bs"
  shows "bs \<noteq> []"
proof -
  obtain bs' where "mapE finishBlock (mergedBlocks f es) = Inr bs'"
    and "map subEvents bs' = map subEvents (mergedBlocks f es)"
    using mapE_finishBlock [OF nonempty_fold [of f es]]
    unfolding mergedBlocks_blocksOf by blast
  with assms(2) have "map subEvents bs = map subEvents (mergedBlocks f es)"
    by (simp add: timelineBlocks_def)
  then have "length bs = length (mergedBlocks f es)" by (metis length_map)
  with mergedBlocks_nonempty [OF assms(1), of f] show ?thesis by auto
qed

lemma enrichedData_parsed:
  assumes "validEvents es \<noteq> []" "parsedEvents (validEvents es) = Some vs"
  shows "\<exists>r. enrichedData es = Inr (Some r) \<and> enrichedBlocks r \<noteq> []
           \<and> laytimeEvents (enrichedLaytime r) \<noteq> []"
proof -
  from assms have es: "es \<noteq> []" by (auto simp: validEvents_def)
  from assms have vs: "vs \<noteq> []" using parsedEvents_length [OF assms(2)] by auto
  then have "sortedEvents vs \<noteq> []" by (simp add: sortedEvents_Nil)
  then obtain s0 rest where s: "sortedEvents vs = s0 # rest"
    by (cases "sortedEvents vs") auto
  obtain bs where bs: "timelineBlocks (startTime s0) (s0 # rest) = Inr bs"
    using timelineBlocks_total by blast
  then have ne: "bs \<noteq> []" by (rule timelineBlocks_nonempty [rotated]) simp
  obtain t where t: "summaryText (s0 # rest) vs (laytimeEvents (laytimeCalculation vs)) = Inr t"
    using summaryText_total [of "s0 # rest"] by blast
  have "enrichedData es = Inr (Some \<lparr>enrichedBlocks = bs, enrichedLaytime = laytimeCalculation vs,
      eventsSummary = t\<rparr>)"
    using es assms by (simp add: enrichedData_def Let_def s bs t)
  moreover have "laytimeEvents (laytimeCalculation vs) \<noteq> []"
    using vs by (simp add: laytimeEvents_eq)
  ultimately show ?thesis using ne by simp
qed

lemma enrichedData_null: "validEvents es = [] \<Longrightarrow> enrichedData es = Inr None"
  by (simp add: enrichedData_def)

lemma enrichedData_invalid:
  assumes "validEvents es \<noteq> []" "parsedEvents (validEvents es) = None"
  shows "enrichedData es = Inl RangeError"
proof -
  from assms(1) have "es \<noteq> []" by (auto simp: validEvents_def)
  with assms show ?thesis by (simp add: enrichedData_def Let_def)
qed

text \<open>
  Claim C9, as amended. The pipeline is total on the event lists whose present time
  stamps parse: whatever the categories and the order of the time stamps (inverted ones
  included), \<open>enrichedData\<close> returns a value. A kept event (both time stamps present) with
  a time stamp that does not parse makes it raise RangeError; it raises nothing else.
  On the empty input, and whenever no event is kept, it returns \<open>null\<close> before any
  stage runs; a result that is not \<open>null\<close> has at least one block and one laytime event.
\<close>

theorem pipeline_outcomes:
  "enrichedData [] = Inr None
   \<and> (enrichedData es = Inr None \<longleftrightarrow> validEvents es = [])
   \<and> ((\<exists>e \<in> set (validEvents es). parseISO (startTime e) = None \<or> parseISO (endTime e) = None)
        \<longrightarrow> enrichedData es = Inl RangeError)
   \<and> ((\<forall>e \<in> set (validEvents es). parseISO (startTime e) \<noteq> None \<and> parseISO (endTime e) \<noteq> None)
        \<longrightarrow> (\<exists>r. enrichedData es = Inr r))
   \<and> (\<forall>r. enrichedData es = Inr (Some r) \<longrightarrow>
         enrichedBlocks r \<noteq> [] \<and> laytimeEvents (enrichedLaytime r) \<noteq> [])
   \<and> enrichedData es \<noteq> Inl TypeError"
proof -
  have a: "enrichedData [] = Inr None" by (simp add: enrichedData_def)
  consider (null) "validEvents es = []"
    | (bad) "validEvents es \<noteq> []" "parsedEvents (validEvents es) = None"
    | (good) vs where "validEvents es \<noteq> []" "parsedEvents (validEvents es) = Some vs"
    by (cases "parsedEvents (validEvents es)") auto
  then have "(enrichedData es = Inr None \<longleftrightarrow> validEvents es = [])
   \<and> ((\<exists>e \<in> set (validEvents es). parseISO (startTime e) = None \<or> parseISO (endTime e) = None)
        \<longrightarrow> enrichedData es = Inl RangeError)
   \<and> ((\<forall>e \<in> set (validEvents es). parseISO (startTime e) \<noteq> None \<and> parseISO (endTime e) \<noteq> None)
        \<longrightarrow> (\<exists>r. enrichedData es = Inr r))
   \<and> (\<forall>r. enrichedData es = Inr (Some r) \<longrightarrow>
         enrichedBlocks r \<noteq> [] \<and> laytimeEvents (enrichedLaytime r) \<noteq> [])
   \<and> enrichedData es \<noteq> Inl TypeError"
  proof cases
    case null
    then show ?thesis by (simp add: enrichedData_null)
  next
    case bad
    from bad(2) have "\<exists>e \<in> set (validEvents es).
        parseISO (startTime e) = None \<or> parseISO (endTime e) = None"
      by (simp add: parsedEvents_None parsed_None)
    with bad enrichedData_invalid [OF bad] show ?thesis by auto
  next
    case good
    from good(2) have "\<not> (\<exists>e \<in> set (validEvents es). parsed e = None)"
      using parsedEvents_None [of "validEvents es"] by simp
    then have ok: "\<forall>e \<in> set (validEvents es).
        parseISO (startTime e) \<noteq> None \<and> parseISO (endTime e) \<noteq> None"
      by (simp add: parsed_None)
    from enrichedData_parsed [OF good] obtain r where "enrichedData es = Inr (Some r)"
      "enrichedBlocks r \<noteq> []" "laytimeEvents (enrichedLaytime r) \<noteq> []" by blast
    with good(1) ok show ?thesis by auto
  qed
  with a show ?thesis by blast
qed

theorem pipeline_outcomes_witness:
  "enrichedData garbledInput = Inl RangeError
   \<and> (\<exists>r. enrichedData invertedInput = Inr (Some r) \<and> enrichedBlocks r \<noteq> []
          \<and> laytimeEvents (enrichedLaytime r) \<noteq> [])"
proof -
  let ?g = "sampleEvent ''Rain'' ''Delays'' Unparseable (At (hour 15))"
  have "validEvents garbledInput = garbledInput"
    by (simp add: garbledInput_def validEvents_def truthy_def sampleEvent_def)
  moreover have "?g \<in> set garbledInput" by (simp add: garbledInput_def)
  moreover have "parseISO (startTime ?g) = None" by (simp add: sampleEvent_def parseISO_def)
  ultimately have g: "enrichedData garbledInput = Inl RangeError"
    using pipeline_outcomes [of garbledInput] by metis
  have v: "validEvents invertedInput = invertedInput"
    by (simp add: invertedInput_def validEvents_def truthy_def sampleEvent_def)
  have "\<forall>e \<in> set (validEvents invertedInput).
      parseISO (startTime e) \<noteq> None \<and> parseISO (endTime e) \<noteq> None"
    unfolding v by (simp add: invertedInput_def sampleEvent_def parseISO_def)
  with pipeline_outcomes [of invertedInput] obtain r where r: "enrichedData invertedInput = Inr r"
    by blast
  have "validEvents invertedInput \<noteq> []" unfolding v by (simp add: invertedInput_def)
  with pipeline_outcomes [of invertedInput] r obtain r' where r': "r = Some r'"
    by (cases r) auto
  with pipeline_outcomes [of invertedInput] r
  have "enrichedBlocks r' \<noteq> [] \<and> laytimeEvents (enrichedLaytime r') \<noteq> []" by blast
  with r r' g show ?thesis by blast
qed

text \<open>A kept event whose start does not parse makes the pipeline raise RangeError, and
  the empty input gives \<open>null\<close>, not empty results of the stages.\<close>

theorem unparseable_counterexample:
  "enrichedData garbledInput = Inl RangeError
   \<and> enrichedData [sampleEvent ''Rain'' ''Delays'' Unparseable (At (hour 15))] = Inl RangeError
   \<and> enrichedData [] = Inr None"
  by code_simp

subsection \<open>The sweep of the page and the sweep of the dashboard\<close>


















end
